theory Spec2Isabelle
  imports Main "HOL-Library.Word"
begin

unbundle bit_operations_syntax

section \<open>Data model of the path layer (llarp/path.cpp)\<close>

text \<open>
  The fixed-size byte strings of the path layer are opaque values that the code only
  copies and compares: they are machine words here. A path id is 16 bytes; router
  identities, shared secrets and tunnel nonces are 32 bytes. \<open>llarp_time_t\<close> is an
  unsigned 64-bit count of milliseconds, so \<open>-\<close> wraps around and \<open><\<close> compares
  unsigned.
\<close>

type_synonym byte_t = "8 word"
type_synonym PathID_t = "128 word"
type_synonym RouterID = "256 word"
type_synonym SharedSecret = "256 word"
type_synonym TunnelNonce = "256 word"
type_synonym llarp_time_t = "64 word"

text \<open>
  What goes wrong in the C++ without a result: indexing a vector or reading a buffer
  outside its bounds, and following a pointer to an object that is not allocated.
  A function that can do either returns \<open>fault + 'a\<close>.
\<close>

datatype fault = OutOfBounds | BadPointer

fun and_then :: "fault + 'a \<Rightarrow> ('a \<Rightarrow> fault + 'b) \<Rightarrow> fault + 'b" where
  "and_then (Inl e) f = Inl e"
| "and_then (Inr x) f = f x"

text \<open>
  Objects on the heap: a pointer is an address, a heap maps the addresses of the
  allocated objects to their contents.
\<close>

definition deref :: "(nat \<rightharpoonup> 'a) \<Rightarrow> nat \<Rightarrow> fault + 'a" where
  "deref heap p = (case heap p of None \<Rightarrow> Inl BadPointer | Some x \<Rightarrow> Inr x)"

subsection \<open>Buffers\<close>

text \<open>
  \<open>llarp_buffer_t\<close>: \<open>base\<close> is the memory the buffer points to, \<open>cur\<close> the offset of
  the cursor from the start of that memory, \<open>sz\<close> the size of the buffer.
\<close>

record llarp_buffer_t =
  base :: "byte_t list"
  cur :: nat
  sz :: nat

definition size_left :: "llarp_buffer_t \<Rightarrow> nat" where
  "size_left buffer = sz buffer - cur buffer"

text \<open>The read \<open>*buffer->cur\<close>.\<close>

definition peek :: "llarp_buffer_t \<Rightarrow> fault + byte_t" where
  "peek buffer =
     (if cur buffer < length (base buffer) then Inr (base buffer ! cur buffer)
      else Inl OutOfBounds)"

text \<open>\<open>StackBuffer(tmp)\<close>: a buffer over the whole array, the cursor at its start.\<close>

definition StackBuffer :: "byte_t list \<Rightarrow> llarp_buffer_t" where
  "StackBuffer tmp = \<lparr>base = tmp, cur = 0, sz = length tmp\<rparr>"

subsection \<open>The transport\<close>

type_synonym EncryptedFrame = "byte_t list"

text \<open>
  The two link messages path.cpp builds: \<open>LR_CommitMessage\<close> with its \<open>frames\<close>,
  and \<open>RelayUpstreamMessage\<close> with \<open>X\<close> (the ciphertext), \<open>Y\<close> (the nonce) and \<open>pathid\<close>.
\<close>

datatype ILinkMessage =
    LR_CommitMessage "EncryptedFrame list"
  | RelayUpstreamMessage "byte_t list" TunnelNonce PathID_t

text \<open>
  The router, as far as the path layer sees it: \<open>sends\<close> lists the calls of
  \<open>SendToOrQueue\<close> so far, oldest first, and \<open>accepts\<close> is the answer of the
  transport to a call.
\<close>

record llarp_router =
  accepts :: "RouterID \<Rightarrow> ILinkMessage \<Rightarrow> bool"
  sends :: "(RouterID \<times> ILinkMessage) list"

text \<open>
  Modelled from the spec: \<open>llarp_router::SendToOrQueue\<close> is defined in router.cpp;
  it is the transport send primitive \<open>send(routerIdentity, message) -> bool\<close>, which
  returns false when the transport rejects the message.
\<close>

definition SendToOrQueue ::
  "llarp_router \<Rightarrow> RouterID \<Rightarrow> ILinkMessage \<Rightarrow> bool \<times> llarp_router" where
  "SendToOrQueue r remote msg = (accepts r remote msg, r\<lparr>sends := sends r @ [(remote, msg)]\<rparr>)"

subsection \<open>Transit hops\<close>

text \<open>
  Modelled from the spec: \<open>TransitHopInfo\<close> and \<open>TransitHop\<close> are declared in path.hpp.
  A HopInfo is the router identity of the hop, its upstream and downstream
  neighbours, its TX and RX ids and its lifetime; \<open>info == hop->info\<close> holds iff the two
  are equal exactly. A TransitHop is its HopInfo and the time it was registered.
\<close>

record TransitHopInfo =
  router :: RouterID
  upstream :: RouterID
  downstream :: RouterID
  txID :: PathID_t
  rxID :: PathID_t
  lifetime :: llarp_time_t

record TransitHop =
  info :: TransitHopInfo
  registeredAt :: llarp_time_t

text \<open>
  Modelled from the spec: \<open>TransitHop::Expired\<close> is not defined in path.cpp; the expiry
  check of a transit hop is \<open>now - registeredAt > info.lifetime\<close>.
\<close>

definition TransitHop_Expired :: "TransitHop \<Rightarrow> llarp_time_t \<Rightarrow> bool" where
  "TransitHop_Expired hop now = (now - registeredAt hop > TransitHopInfo.lifetime (info hop))"

subsection \<open>Paths\<close>

text \<open>A router contact; the path layer reads its public key only.\<close>

record llarp_rc =
  pubkey :: RouterID

text \<open>One hop of a path this node originates (\<open>PathHopConfig\<close>).\<close>

record PathHopConfig =
  txID :: PathID_t
  rxID :: PathID_t
  router :: llarp_rc
  shared :: SharedSecret
  lifetime :: llarp_time_t

record Path =
  hops :: "PathHopConfig list"
  buildStarted :: llarp_time_t

section \<open>Path construction (Path::Path)\<close>

text \<open>
  \<open>Randomize()\<close> draws from the process's random generator. The generator is the
  sequence \<open>rnd\<close> of the values it yields, in the order of the calls: hop \<open>idx\<close>
  takes draw \<open>2 * idx\<close> for its TX id and draw \<open>2 * idx + 1\<close> for its RX id.

  The first loop of the constructor, \<open>for(idx = 0; idx < h->numHops; ++idx)\<close>, over
  the vector \<open>hops(h->numHops)\<close> of default-constructed hops.
\<close>

function Path_init_hops ::
  "(nat \<Rightarrow> PathID_t) \<Rightarrow> llarp_rc list \<Rightarrow> nat \<Rightarrow> PathHopConfig list \<Rightarrow> PathHopConfig list" where
  "Path_init_hops rnd h idx hs =
     (if idx < length h
      then Path_init_hops rnd h (Suc idx)
             (hs[idx := (hs ! idx)\<lparr>router := h ! idx,
                                   txID := rnd (2 * idx),
                                   rxID := rnd (2 * idx + 1)\<rparr>])
      else hs)"
  by pat_completeness auto
termination
  by (relation "measure (\<lambda>(rnd, h, idx, hs). length h - idx)") auto

text \<open>
  The second loop, \<open>for(idx = numHops - 1; idx > 0; --idx) hops[idx].txID = hops[idx - 1].rxID\<close>:
  the argument is the value of \<open>idx\<close> at the loop head.
\<close>

fun Path_link_hops :: "nat \<Rightarrow> PathHopConfig list \<Rightarrow> PathHopConfig list" where
  "Path_link_hops 0 hs = hs"
| "Path_link_hops (Suc i) hs =
     Path_link_hops i (hs[Suc i := (hs ! Suc i)\<lparr>txID := rxID (hs ! i)\<rparr>])"

text \<open>
  The constructor. \<open>dflt\<close> is a default-constructed \<open>PathHopConfig\<close> and \<open>b0\<close> the
  content of \<open>buildStarted\<close>, which the constructor does not assign. With no hops,
  \<open>numHops - 1\<close> wraps around to the largest \<open>size_t\<close> and the second loop indexes the
  empty vector.
\<close>

definition Path_ctor ::
  "PathHopConfig \<Rightarrow> llarp_time_t \<Rightarrow> (nat \<Rightarrow> PathID_t) \<Rightarrow> llarp_rc list \<Rightarrow> fault + Path" where
  "Path_ctor dflt b0 rnd h =
     (let numHops = length h;
          hs = Path_init_hops rnd h 0 (replicate numHops dflt)
      in if numHops = 0 then Inl OutOfBounds
         else Inr \<lparr>hops = Path_link_hops (numHops - 1) hs, buildStarted = b0\<rparr>)"


section \<open>Path (path.cpp, lines 229-304)\<close>

text \<open>\<open>hops[0]\<close>: indexing an empty vector is out of bounds.\<close>

definition Path_hop0 :: "Path \<Rightarrow> fault + PathHopConfig" where
  "Path_hop0 p = (case hops p of [] \<Rightarrow> Inl OutOfBounds | hop # _ \<Rightarrow> Inr hop)"

definition Path_TXID :: "Path \<Rightarrow> fault + PathID_t" where
  "Path_TXID p = and_then (Path_hop0 p) (\<lambda>hop. Inr (txID hop))"

definition Path_RXID :: "Path \<Rightarrow> fault + PathID_t" where
  "Path_RXID p = and_then (Path_hop0 p) (\<lambda>hop. Inr (rxID hop))"

definition Path_Upstream :: "Path \<Rightarrow> fault + RouterID" where
  "Path_Upstream p = and_then (Path_hop0 p) (\<lambda>hop. Inr (pubkey (router hop)))"

definition Path_Expired :: "Path \<Rightarrow> llarp_time_t \<Rightarrow> fault + bool" where
  "Path_Expired p now =
     and_then (Path_hop0 p) (\<lambda>hop. Inr (now - buildStarted p > lifetime hop))"

subsection \<open>The stream cipher\<close>

text \<open>
  Modelled from the spec: \<open>crypto.xchacha20\<close> belongs to the crypto facade,
  \<open>streamCipherTransform(buffer, key, nonce) -> buffer\<close>, an in-place symmetric
  transform that is the same operation for encrypt and decrypt given matching key and
  nonce. A stream cipher combines the bytes of the buffer with a keystream that key
  and nonce determine, byte by byte with exclusive or. The keystream generator \<open>ks\<close> is
  a parameter: \<open>ks key nonce i\<close> is byte \<open>i\<close> of the keystream.
\<close>

fun xor_stream :: "(nat \<Rightarrow> byte_t) \<Rightarrow> nat \<Rightarrow> byte_t list \<Rightarrow> byte_t list" where
  "xor_stream s i [] = []"
| "xor_stream s i (b # bs) = (b XOR s i) # xor_stream s (Suc i) bs"

definition xchacha20 ::
  "(SharedSecret \<Rightarrow> TunnelNonce \<Rightarrow> nat \<Rightarrow> byte_t) \<Rightarrow>
   llarp_buffer_t \<Rightarrow> SharedSecret \<Rightarrow> TunnelNonce \<Rightarrow> llarp_buffer_t" where
  "xchacha20 ks buf k n =
     buf\<lparr>base := xor_stream (ks k n) 0 (take (sz buf) (base buf)) @ drop (sz buf) (base buf)\<rparr>"

text \<open>
  The loop \<open>for(const auto& hop : hops) r->crypto.xchacha20(buf, hop.shared, Y)\<close>, which
  is the same in \<open>HandleUpstream\<close> and \<open>HandleDownstream\<close>.
\<close>

fun Path_cipher_loop ::
  "(SharedSecret \<Rightarrow> TunnelNonce \<Rightarrow> nat \<Rightarrow> byte_t) \<Rightarrow>
   PathHopConfig list \<Rightarrow> llarp_buffer_t \<Rightarrow> TunnelNonce \<Rightarrow> llarp_buffer_t" where
  "Path_cipher_loop ks [] buf Y = buf"
| "Path_cipher_loop ks (hop # hs) buf Y = Path_cipher_loop ks hs (xchacha20 ks buf (shared hop) Y) Y"

text \<open>
  \<open>HandleUpstream\<close> returns the result of the send; the model also gives the buffer,
  whose memory the cipher has changed in place, and the router. The message takes
  the bytes of the buffer's extent.
\<close>

definition HandleUpstream ::
  "(SharedSecret \<Rightarrow> TunnelNonce \<Rightarrow> nat \<Rightarrow> byte_t) \<Rightarrow>
   Path \<Rightarrow> llarp_buffer_t \<Rightarrow> TunnelNonce \<Rightarrow> llarp_router \<Rightarrow>
   fault + bool \<times> llarp_buffer_t \<times> llarp_router" where
  "HandleUpstream ks p buf Y r =
     (let buf' = Path_cipher_loop ks (hops p) buf Y
      in and_then (Path_TXID p) (\<lambda>tx.
         and_then (Path_Upstream p) (\<lambda>up.
           (case SendToOrQueue r up (RelayUpstreamMessage (take (sz buf') (base buf')) Y tx) of
              (ok, r') \<Rightarrow> Inr (ok, buf', r')))))"

text \<open>
  The parser of inbound routing messages, \<open>m_InboundMessageParser.ParseMessageBuffer\<close>,
  is the parameter \<open>ParseMessageBuffer\<close>.
\<close>

definition HandleRoutingMessage ::
  "(llarp_buffer_t \<Rightarrow> Path \<Rightarrow> bool) \<Rightarrow> Path \<Rightarrow> llarp_buffer_t \<Rightarrow> bool" where
  "HandleRoutingMessage ParseMessageBuffer p buf =
     (if \<not> ParseMessageBuffer buf p then False else True)"

definition HandleDownstream ::
  "(SharedSecret \<Rightarrow> TunnelNonce \<Rightarrow> nat \<Rightarrow> byte_t) \<Rightarrow> (llarp_buffer_t \<Rightarrow> Path \<Rightarrow> bool) \<Rightarrow>
   Path \<Rightarrow> llarp_buffer_t \<Rightarrow> TunnelNonce \<Rightarrow> bool \<times> llarp_buffer_t" where
  "HandleDownstream ks ParseMessageBuffer p buf Y =
     (let buf' = Path_cipher_loop ks (hops p) buf Y
      in (HandleRoutingMessage ParseMessageBuffer p buf', buf'))"

subsection \<open>SendRoutingMessage\<close>

text \<open>
  A routing message, as far as \<open>SendRoutingMessage\<close> uses it: its virtual method
  \<open>BEncode\<close>, which writes to a buffer and returns whether it succeeded.
\<close>

datatype IMessage = IMessage (BEncode: "llarp_buffer_t \<Rightarrow> bool \<times> llarp_buffer_t")

text \<open>
  \<open>tmp\<close> is the scratch array of \<open>MAX_LINK_MSG_SIZE / 2\<close> bytes with whatever the stack
  holds, and \<open>N\<close> the value \<open>N.Randomize()\<close> draws.
\<close>

definition SendRoutingMessage ::
  "(SharedSecret \<Rightarrow> TunnelNonce \<Rightarrow> nat \<Rightarrow> byte_t) \<Rightarrow> byte_t list \<Rightarrow> TunnelNonce \<Rightarrow>
   Path \<Rightarrow> IMessage \<Rightarrow> llarp_router \<Rightarrow> fault + bool \<times> llarp_router" where
  "SendRoutingMessage ks tmp N p msg r =
     (case BEncode msg (StackBuffer tmp) of
        (ok, buf) \<Rightarrow>
          if \<not> ok then Inr (False, r)
          else and_then (HandleUpstream ks p (buf\<lparr>sz := cur buf, cur := 0\<rparr>) N r)
                 (\<lambda>(sent, buf', r'). Inr (sent, r')))"

text \<open>
  Modelled from the spec: the serialization facade \<open>encode(message, buffer) -> bool\<close>
  fails when the serialization exceeds the capacity of the buffer. A message whose
  serialization is the byte string \<open>bs\<close> writes it at the cursor and advances the
  cursor, or fails when fewer than \<open>length bs\<close> bytes are left.
\<close>

definition bencode_write_bytes :: "byte_t list \<Rightarrow> llarp_buffer_t \<Rightarrow> bool \<times> llarp_buffer_t" where
  "bencode_write_bytes bs buf =
     (if length bs \<le> size_left buf \<and> cur buf + length bs \<le> length (base buf)
      then (True, buf\<lparr>base := take (cur buf) (base buf) @ bs @ drop (cur buf + length bs) (base buf),
                        cur := cur buf + length bs\<rparr>)
      else (False, buf))"

section \<open>PathContext: the registry (path.cpp, lines 60-213)\<close>

text \<open>
  The two registries are multimaps from path ids to pointers. A multimap is the list
  of its entries in the order in which the container iterates over them;
  \<open>equal_range\<close> is the entries of one key in that order.
\<close>

definition equal_range :: "('k \<times> 'v) list \<Rightarrow> 'k \<Rightarrow> ('k \<times> 'v) list" where
  "equal_range m k = filter (\<lambda>i. fst i = k) m"

fun MapGet_loop :: "('v \<Rightarrow> fault + bool) \<Rightarrow> ('k \<times> 'v) list \<Rightarrow> fault + 'v option" where
  "MapGet_loop check [] = Inr None"
| "MapGet_loop check (i # entries) =
     and_then (check (snd i)) (\<lambda>c. if c then Inr (Some (snd i)) else MapGet_loop check entries)"

definition MapGet :: "('k \<times> 'v) list \<Rightarrow> 'k \<Rightarrow> ('v \<Rightarrow> fault + bool) \<Rightarrow> fault + 'v option" where
  "MapGet m k check = MapGet_loop check (equal_range m k)"

fun MapHas_loop :: "('v \<Rightarrow> fault + bool) \<Rightarrow> ('k \<times> 'v) list \<Rightarrow> fault + bool" where
  "MapHas_loop check [] = Inr False"
| "MapHas_loop check (i # entries) =
     and_then (check (snd i)) (\<lambda>c. if c then Inr True else MapHas_loop check entries)"

definition MapHas :: "('k \<times> 'v) list \<Rightarrow> 'k \<Rightarrow> ('v \<Rightarrow> fault + bool) \<Rightarrow> fault + bool" where
  "MapHas m k check = MapHas_loop check (equal_range m k)"

text \<open>
  \<open>emplace\<close>: the type of the container is declared in path.hpp, and where it puts a
  new entry among the entries it holds depends on that type. The position is the
  parameter \<open>pos\<close>: the number of entries that come before the new one.
\<close>

definition MapPut :: "nat \<Rightarrow> ('k \<times> 'v) list \<Rightarrow> 'k \<Rightarrow> 'v \<Rightarrow> ('k \<times> 'v) list" where
  "MapPut pos m k v = take pos m @ (k, v) # drop pos m"

text \<open>\<open>MapDel\<close> erases the entries of key \<open>k\<close> that pass the check, and no other.\<close>

fun MapDel :: "('k \<times> 'v) list \<Rightarrow> 'k \<Rightarrow> ('v \<Rightarrow> fault + bool) \<Rightarrow> fault + ('k \<times> 'v) list" where
  "MapDel [] k check = Inr []"
| "MapDel (i # m) k check =
     (if fst i = k
      then and_then (check (snd i)) (\<lambda>c.
             and_then (MapDel m k check) (\<lambda>m'. Inr (if c then m' else i # m')))
      else and_then (MapDel m k check) (\<lambda>m'. Inr (i # m')))"

text \<open>\<open>map.erase(key)\<close> of a multimap erases every entry of the key.\<close>

definition erase :: "('k \<times> 'v) list \<Rightarrow> 'k \<Rightarrow> ('k \<times> 'v) list" where
  "erase m k = filter (\<lambda>i. fst i \<noteq> k) m"

text \<open>
  The context with the objects its pointers refer to: \<open>Path_heap\<close> and
  \<open>TransitHop_heap\<close> hold the allocated paths and transit hops.
\<close>

record PathContext =
  m_OurPaths :: "(PathID_t \<times> nat) list"
  m_TransitPaths :: "(PathID_t \<times> nat) list"
  Path_heap :: "nat \<rightharpoonup> Path"
  TransitHop_heap :: "nat \<rightharpoonup> TransitHop"

text \<open>What a lookup returns: a pointer to a path or to a transit hop.\<close>

datatype IHopHandler = PathPtr nat | TransitHopPtr nat

text \<open>
  \<open>ForwardLRCM\<close> on the router \<open>m_Router\<close> points to. The loop moves the frames from
  the front of the queue to the back of the message.
\<close>

fun ForwardLRCM_loop ::
  "EncryptedFrame list \<Rightarrow> EncryptedFrame list \<Rightarrow> EncryptedFrame list \<times> EncryptedFrame list" where
  "ForwardLRCM_loop msg_frames [] = (msg_frames, [])"
| "ForwardLRCM_loop msg_frames (front # frames) = ForwardLRCM_loop (msg_frames @ [front]) frames"

definition ForwardLRCM ::
  "llarp_router \<Rightarrow> RouterID \<Rightarrow> EncryptedFrame list \<Rightarrow> bool \<times> EncryptedFrame list \<times> llarp_router" where
  "ForwardLRCM r nextHop frames =
     (case ForwardLRCM_loop [] frames of
        (msg_frames, frames') \<Rightarrow>
          (case SendToOrQueue r nextHop (LR_CommitMessage msg_frames) of
             (ok, r') \<Rightarrow> (ok, frames', r')))"

definition AddOwnPath :: "nat \<Rightarrow> nat \<Rightarrow> PathContext \<Rightarrow> nat \<Rightarrow> fault + PathContext" where
  "AddOwnPath pos1 pos2 ctx path =
     and_then (deref (Path_heap ctx) path) (\<lambda>p.
     and_then (Path_TXID p) (\<lambda>tx.
     and_then (Path_RXID p) (\<lambda>rx.
       Inr (ctx\<lparr>m_OurPaths := MapPut pos2 (MapPut pos1 (m_OurPaths ctx) tx path) rx path\<rparr>))))"

definition HasTransitHop :: "PathContext \<Rightarrow> TransitHopInfo \<Rightarrow> fault + bool" where
  "HasTransitHop ctx hinfo =
     MapHas (m_TransitPaths ctx) (TransitHopInfo.txID hinfo)
       (\<lambda>hop. and_then (deref (TransitHop_heap ctx) hop) (\<lambda>h. Inr (hinfo = info h)))"

definition GetByUpstream :: "PathContext \<Rightarrow> RouterID \<Rightarrow> PathID_t \<Rightarrow> fault + IHopHandler option" where
  "GetByUpstream ctx remote pathid =
     and_then
       (MapGet (m_OurPaths ctx) pathid
          (\<lambda>p. and_then (deref (Path_heap ctx) p) (\<lambda>path.
                and_then (Path_Upstream path) (\<lambda>up. Inr (up = remote)))))
       (\<lambda>own. case own of
          Some p \<Rightarrow> Inr (Some (PathPtr p))
        | None \<Rightarrow>
            and_then
              (MapGet (m_TransitPaths ctx) pathid
                 (\<lambda>hop. and_then (deref (TransitHop_heap ctx) hop) (\<lambda>h.
                         Inr (upstream (info h) = remote))))
              (\<lambda>found. Inr (map_option TransitHopPtr found)))"

definition GetByDownstream :: "PathContext \<Rightarrow> RouterID \<Rightarrow> PathID_t \<Rightarrow> fault + IHopHandler option" where
  "GetByDownstream ctx remote pathid =
     and_then
       (MapGet (m_TransitPaths ctx) pathid
          (\<lambda>hop. and_then (deref (TransitHop_heap ctx) hop) (\<lambda>h.
                  Inr (downstream (info h) = remote))))
       (\<lambda>found. Inr (map_option TransitHopPtr found))"

definition PutTransitHop :: "nat \<Rightarrow> nat \<Rightarrow> PathContext \<Rightarrow> nat \<Rightarrow> fault + PathContext" where
  "PutTransitHop pos1 pos2 ctx hop =
     and_then (deref (TransitHop_heap ctx) hop) (\<lambda>h.
       Inr (ctx\<lparr>m_TransitPaths :=
                  MapPut pos2 (MapPut pos1 (m_TransitPaths ctx) (TransitHopInfo.txID (info h)) hop)
                    (TransitHopInfo.rxID (info h)) hop\<rparr>))"

subsection \<open>ExpirePaths\<close>

text \<open>
  The scan \<open>while(itr != map.end())\<close>: \<open>removePaths\<close> is a \<open>std::set\<close> of pointers, the
  list of its elements in ascending order without repetition.
\<close>

fun ExpirePaths_scan ::
  "(nat \<rightharpoonup> TransitHop) \<Rightarrow> llarp_time_t \<Rightarrow> (PathID_t \<times> nat) list \<Rightarrow> nat list \<Rightarrow> fault + nat list" where
  "ExpirePaths_scan heap now [] removePaths = Inr removePaths"
| "ExpirePaths_scan heap now (itr # rest) removePaths =
     and_then (deref heap (snd itr)) (\<lambda>h.
       ExpirePaths_scan heap now rest
         (if TransitHop_Expired h now then insort_insert (snd itr) removePaths else removePaths))"

text \<open>
  The loop \<open>for(auto& p : removePaths)\<close>: two erasures by key, then \<open>delete p\<close>.
\<close>

fun ExpirePaths_remove ::
  "nat list \<Rightarrow> (PathID_t \<times> nat) list \<Rightarrow> (nat \<rightharpoonup> TransitHop) \<Rightarrow>
   fault + (PathID_t \<times> nat) list \<times> (nat \<rightharpoonup> TransitHop)" where
  "ExpirePaths_remove [] m heap = Inr (m, heap)"
| "ExpirePaths_remove (p # removePaths) m heap =
     and_then (deref heap p) (\<lambda>h.
       ExpirePaths_remove removePaths
         (erase (erase m (TransitHopInfo.txID (info h))) (TransitHopInfo.rxID (info h)))
         (heap(p := None)))"

text \<open>\<open>now\<close> is the value of \<open>llarp_time_now_ms()\<close>.\<close>

definition ExpirePaths :: "PathContext \<Rightarrow> llarp_time_t \<Rightarrow> fault + PathContext" where
  "ExpirePaths ctx now =
     and_then (ExpirePaths_scan (TransitHop_heap ctx) now (m_TransitPaths ctx) []) (\<lambda>removePaths.
     and_then (ExpirePaths_remove removePaths (m_TransitPaths ctx) (TransitHop_heap ctx)) (\<lambda>(m, heap).
       Inr (ctx\<lparr>m_TransitPaths := m, TransitHop_heap := heap\<rparr>)))"

subsection \<open>Predicates for the statements about the registry\<close>

text \<open>
  An own path \<open>p\<close> matches \<open>remote\<close> when it is allocated, has a hop, and
  \<open>hops[0].router\<close> is \<open>remote\<close>; a transit hop matches when it is allocated and its
  upstream is \<open>remote\<close>.
\<close>

definition own_matches :: "PathContext \<Rightarrow> RouterID \<Rightarrow> nat \<Rightarrow> bool" where
  "own_matches ctx remote p =
     (case Path_heap ctx p of
        None \<Rightarrow> False
      | Some path \<Rightarrow> (case hops path of [] \<Rightarrow> False | hop # _ \<Rightarrow> pubkey (router hop) = remote))"

definition transit_matches :: "PathContext \<Rightarrow> RouterID \<Rightarrow> nat \<Rightarrow> bool" where
  "transit_matches ctx remote hop =
     (case TransitHop_heap ctx hop of None \<Rightarrow> False | Some h \<Rightarrow> upstream (info h) = remote)"

text \<open>Every pointer in the transit registry points to an allocated transit hop.\<close>

definition transit_ok :: "PathContext \<Rightarrow> bool" where
  "transit_ok ctx = (\<forall>i \<in> set (m_TransitPaths ctx). TransitHop_heap ctx (snd i) \<noteq> None)"

text \<open>
  The transit hops of the registry that are expired at \<open>now\<close>, and the TX and RX ids
  of a set of transit hops.
\<close>

definition expired_hops :: "(nat \<rightharpoonup> TransitHop) \<Rightarrow> llarp_time_t \<Rightarrow> (PathID_t \<times> nat) list \<Rightarrow> nat set" where
  "expired_hops heap now m =
     {p \<in> snd ` set m. case heap p of None \<Rightarrow> False | Some h \<Rightarrow> TransitHop_Expired h now}"

definition erased_keys :: "(nat \<rightharpoonup> TransitHop) \<Rightarrow> nat set \<Rightarrow> PathID_t set" where
  "erased_keys heap ps =
     {k. \<exists>p \<in> ps. \<exists>h. heap p = Some h \<and>
                       (k = TransitHopInfo.txID (info h) \<or> k = TransitHopInfo.rxID (info h))}"

subsection \<open>Two registries\<close>

text \<open>
  Two transit hops with the same TX id and different neighbours: \<open>hopA\<close>, registered
  at time 0, and \<open>hopB\<close>, registered at time 500000, both with a lifetime of 600000 ms.
  In \<open>ctx_two_hops\<close> they are allocated at the addresses 1 and 2 and not registered yet.
\<close>

definition hopA :: TransitHop where
  "hopA = \<lparr>info = \<lparr>TransitHopInfo.router = 100, upstream = 10, downstream = 11, TransitHopInfo.txID = 1,
                     TransitHopInfo.rxID = 2, TransitHopInfo.lifetime = 600000\<rparr>,
           registeredAt = 0\<rparr>"

definition hopB :: TransitHop where
  "hopB = \<lparr>info = \<lparr>TransitHopInfo.router = 100, upstream = 20, downstream = 21, TransitHopInfo.txID = 1,
                     TransitHopInfo.rxID = 3, TransitHopInfo.lifetime = 600000\<rparr>,
           registeredAt = 500000\<rparr>"

definition ctx_two_hops :: PathContext where
  "ctx_two_hops = \<lparr>m_OurPaths = [], m_TransitPaths = [], Path_heap = Map.empty,
                   TransitHop_heap = [1 \<mapsto> hopA, 2 \<mapsto> hopB]\<rparr>"

text \<open>
  A registry in which the path id 7 is the TX id of an own path whose first hop is
  router 9, and also the TX id of two transit hops, with the upstreams 9 and 4.
\<close>

definition ctx_own_and_transit :: PathContext where
  "ctx_own_and_transit =
     \<lparr>m_OurPaths = [(7, 1), (8, 1)],
      m_TransitPaths = [(7, 1), (6, 1), (7, 2), (3, 2)],
      Path_heap = [1 \<mapsto> \<lparr>hops = [\<lparr>txID = 7, rxID = 8, router = \<lparr>pubkey = 9\<rparr>, shared = 20,
                                     lifetime = 600000\<rparr>],
                             buildStarted = 0\<rparr>],
      TransitHop_heap =
        [1 \<mapsto> \<lparr>info = \<lparr>TransitHopInfo.router = 100, upstream = 9, downstream = 30,
                           TransitHopInfo.txID = 7, TransitHopInfo.rxID = 6,
                           TransitHopInfo.lifetime = 600000\<rparr>,
                 registeredAt = 0\<rparr>,
         2 \<mapsto> \<lparr>info = \<lparr>TransitHopInfo.router = 100, upstream = 4, downstream = 31,
                           TransitHopInfo.txID = 7, TransitHopInfo.rxID = 3,
                           TransitHopInfo.lifetime = 600000\<rparr>,
                 registeredAt = 0\<rparr>]\<rparr>"

section \<open>Reading bencoded lists (llarp/util/bencode.hpp)\<close>

text \<open>
  The loop \<open>while(buffer->size_left() && *buffer->cur != 'e')\<close> of \<open>bencode_read_list\<close>.
  The sink is a closure: \<open>s\<close> is the state it has captured by reference. The loop
  ends with \<open>True\<close> when its condition fails and with \<open>False\<close> when the sink aborts;
  a sink that neither aborts nor moves the cursor keeps it running for ever, which
  is the value \<open>None\<close>.
\<close>

partial_function (option) bencode_read_list_loop ::
  "('s \<Rightarrow> llarp_buffer_t \<Rightarrow> bool \<Rightarrow> bool \<times> 's \<times> llarp_buffer_t) \<Rightarrow> 's \<Rightarrow> llarp_buffer_t \<Rightarrow>
   (fault + bool \<times> 's \<times> llarp_buffer_t) option" where
  "bencode_read_list_loop sink s buffer =
     (if size_left buffer = 0 then Some (Inr (True, s, buffer))
      else (case peek buffer of
              Inl e \<Rightarrow> Some (Inl e)
            | Inr c \<Rightarrow>
                if c = 101 then Some (Inr (True, s, buffer))
                else (case sink s buffer True of
                        (ok, s', buffer') \<Rightarrow>
                          if \<not> ok then Some (Inr (False, s', buffer'))
                          else bencode_read_list_loop sink s' buffer')))"

text \<open>
  \<open>bencode_read_list\<close>; the bytes \<open>'l'\<close> and \<open>'e'\<close> are 108 and 101. After the loop the
  code reads \<open>*buffer->cur\<close> without asking whether a byte is left.
\<close>

definition bencode_read_list ::
  "('s \<Rightarrow> llarp_buffer_t \<Rightarrow> bool \<Rightarrow> bool \<times> 's \<times> llarp_buffer_t) \<Rightarrow> 's \<Rightarrow> llarp_buffer_t \<Rightarrow>
   (fault + bool \<times> 's \<times> llarp_buffer_t) option" where
  "bencode_read_list sink s buffer =
     (if size_left buffer < 2 then Some (Inr (False, s, buffer))
      else (case peek buffer of
              Inl e \<Rightarrow> Some (Inl e)
            | Inr c \<Rightarrow>
                if c \<noteq> 108 then Some (Inr (False, s, buffer))
                else (case bencode_read_list_loop sink s (buffer\<lparr>cur := cur buffer + 1\<rparr>) of
                        None \<Rightarrow> None
                      | Some (Inl e) \<Rightarrow> Some (Inl e)
                      | Some (Inr (ok, s', buffer')) \<Rightarrow>
                          if \<not> ok then Some (Inr (False, s', buffer'))
                          else (case peek buffer' of
                                  Inl e \<Rightarrow> Some (Inl e)
                                | Inr c' \<Rightarrow>
                                    if c' \<noteq> 101 then Some (Inr (False, s', buffer'))
                                    else Some (Inr (sink s' (buffer'\<lparr>cur := cur buffer' + 1\<rparr>) False))))))"

text \<open>
  The sink of \<open>BEncodeReadArray\<close>. It captures the array and \<open>idx\<close>; the third
  component of its state is not in the code: it lists the indices of the elements on
  which \<open>BDecode\<close> was called, in the order of the calls. \<open>BDecode\<close>, the method of the
  element type, is a parameter: from the element and the buffer it gives its result,
  the element and the buffer after the call.
\<close>

definition BEncodeReadArray_sink ::
  "('a \<Rightarrow> llarp_buffer_t \<Rightarrow> bool \<times> 'a \<times> llarp_buffer_t) \<Rightarrow>
   'a list \<times> nat \<times> nat list \<Rightarrow> llarp_buffer_t \<Rightarrow> bool \<Rightarrow>
   bool \<times> ('a list \<times> nat \<times> nat list) \<times> llarp_buffer_t" where
  "BEncodeReadArray_sink BDecode s buffer has =
     (case s of
        (array, idx, calls) \<Rightarrow>
          if has then
            (if idx \<ge> length array then (False, s, buffer)
             else (case BDecode (array ! idx) buffer of
                     (ok, a, buffer') \<Rightarrow>
                       (ok, (array[idx := a], idx + 1, calls @ [idx]), buffer')))
          else (True, s, buffer))"

definition BEncodeReadArray ::
  "('a \<Rightarrow> llarp_buffer_t \<Rightarrow> bool \<times> 'a \<times> llarp_buffer_t) \<Rightarrow> 'a list \<Rightarrow> llarp_buffer_t \<Rightarrow>
   (fault + bool \<times> ('a list \<times> nat \<times> nat list) \<times> llarp_buffer_t) option" where
  "BEncodeReadArray BDecode array buf =
     bencode_read_list (BEncodeReadArray_sink BDecode) (array, 0, []) buf"

text \<open>
  The sink of \<open>BEncodeReadList\<close>: \<open>result.emplace(result.end())\<close> appends a
  default-constructed element, \<open>dflt\<close>, and decodes into it.
\<close>

definition BEncodeReadList_sink ::
  "('a \<Rightarrow> llarp_buffer_t \<Rightarrow> bool \<times> 'a \<times> llarp_buffer_t) \<Rightarrow> 'a \<Rightarrow>
   'a list \<Rightarrow> llarp_buffer_t \<Rightarrow> bool \<Rightarrow> bool \<times> 'a list \<times> llarp_buffer_t" where
  "BEncodeReadList_sink BDecode dflt result buffer has =
     (if has then
        (case BDecode dflt buffer of (ok, a, buffer') \<Rightarrow> (ok, result @ [a], buffer'))
      else (True, result, buffer))"

definition BEncodeReadList ::
  "('a \<Rightarrow> llarp_buffer_t \<Rightarrow> bool \<times> 'a \<times> llarp_buffer_t) \<Rightarrow> 'a \<Rightarrow> 'a list \<Rightarrow> llarp_buffer_t \<Rightarrow>
   (fault + bool \<times> 'a list \<times> llarp_buffer_t) option" where
  "BEncodeReadList BDecode dflt result buf =
     bencode_read_list (BEncodeReadList_sink BDecode dflt) result buf"

text \<open>
  An element type for the examples: a byte, which decodes itself from the byte at the
  cursor and fails when no byte is left.
\<close>

definition byte_BDecode :: "byte_t \<Rightarrow> llarp_buffer_t \<Rightarrow> bool \<times> byte_t \<times> llarp_buffer_t" where
  "byte_BDecode a buffer =
     (if size_left buffer = 0 \<or> length (base buffer) \<le> cur buffer then (False, a, buffer)
      else (True, base buffer ! cur buffer, buffer\<lparr>cur := cur buffer + 1\<rparr>))"

section \<open>The path constructor links the hops\<close>

declare Path_init_hops.simps [simp del]

lemma Path_init_hops_length: "length (Path_init_hops rnd h idx hs) = length hs"
proof (induction rnd h idx hs rule: Path_init_hops.induct)
  case (1 rnd h idx hs)
  then show ?case
    by (subst Path_init_hops.simps) simp
qed

lemma Path_init_hops_nth:
  "i < length hs \<Longrightarrow> length hs = length h \<Longrightarrow>
   Path_init_hops rnd h idx hs ! i =
     (if idx \<le> i then (hs ! i)\<lparr>router := h ! i, txID := rnd (2 * i), rxID := rnd (2 * i + 1)\<rparr>
      else hs ! i)"
proof (induction rnd h idx hs rule: Path_init_hops.induct)
  case (1 rnd h idx hs)
  show ?case
  proof (cases "idx < length h")
    case True
    with 1 show ?thesis
      by (subst Path_init_hops.simps) (auto simp: nth_list_update not_less_eq_eq dest: le_antisym)
  next
    case False
    with 1 show ?thesis
      by (subst Path_init_hops.simps) auto
  qed
qed

lemma Path_link_hops_length: "length (Path_link_hops k hs) = length hs"
  by (induction k arbitrary: hs) auto

lemma Path_link_hops_nth:
  "k < length hs \<Longrightarrow> i < length hs \<Longrightarrow>
   Path_link_hops k hs ! i =
     (if 1 \<le> i \<and> i \<le> k then (hs ! i)\<lparr>txID := rxID (hs ! (i - 1))\<rparr> else hs ! i)"
proof (induction k arbitrary: hs)
  case 0
  then show ?case by auto
next
  case (Suc k)
  then show ?case
    by (auto simp: nth_list_update)
qed

text \<open>
  C3: for every hop count \<open>n \<ge> 1\<close>, the constructor returns a path of \<open>n\<close> hops in
  which the TX id of hop \<open>i\<close> is the RX id of hop \<open>i - 1\<close> for every \<open>1 \<le> i < n\<close>,
  while the RX id of every hop and the TX id of hop 0 are the values drawn for them
  (and every hop has the router chosen for it).
\<close>

theorem Path_ctor_chain:
  assumes "1 \<le> length h"
  shows "\<exists>p. Path_ctor dflt b0 rnd h = Inr p \<and> length (hops p) = length h \<and>
     (\<forall>i. 1 \<le> i \<and> i < length h \<longrightarrow> txID (hops p ! i) = rxID (hops p ! (i - 1))) \<and>
     (\<forall>i. i < length h \<longrightarrow> rxID (hops p ! i) = rnd (2 * i + 1) \<and> router (hops p ! i) = h ! i) \<and>
     txID (hops p ! 0) = rnd 0"
proof -
  let ?hs = "Path_init_hops rnd h 0 (replicate (length h) dflt)"
  let ?p = "\<lparr>hops = Path_link_hops (length h - 1) ?hs, buildStarted = b0\<rparr>"
  have len: "length ?hs = length h"
    by (simp add: Path_init_hops_length)
  have ctor: "Path_ctor dflt b0 rnd h = Inr ?p"
    using assms by (cases h) (simp_all add: Path_ctor_def Let_def)
  have init: "?hs ! i = dflt\<lparr>router := h ! i, txID := rnd (2 * i), rxID := rnd (2 * i + 1)\<rparr>"
    if "i < length h" for i
    using that by (simp add: Path_init_hops_nth)
  have link: "hops ?p ! i = (if 1 \<le> i then (?hs ! i)\<lparr>txID := rxID (?hs ! (i - 1))\<rparr> else ?hs ! i)"
    if "i < length h" for i
    using that assms len by (simp add: Path_link_hops_nth)
  have rx: "rxID (hops ?p ! i) = rnd (2 * i + 1) \<and> router (hops ?p ! i) = h ! i" if "i < length h" for i
    using that link [OF that] init [OF that] by simp
  have chain: "txID (hops ?p ! i) = rxID (hops ?p ! (i - 1))" if "1 \<le> i" "i < length h" for i
  proof -
    have "i - 1 < length h" using that by simp
    from init [OF this] link [OF that(2)] link [OF this] that(1) show ?thesis
      by (simp split: if_splits)
  qed
  have tx0: "txID (hops ?p ! 0) = rnd 0"
  proof -
    have "0 < length h" using assms by (cases h) simp_all
    from link [OF this] init [OF this] show ?thesis by simp
  qed
  have "length (hops ?p) = length h"
    by (simp add: Path_link_hops_length len)
  with ctor rx chain tx0 show ?thesis by blast
qed


theorem Path_ctor_chain_witness:
  "\<exists>p. Path_ctor \<lparr>txID = 0, rxID = 0, router = \<lparr>pubkey = 0\<rparr>, shared = 0, lifetime = 600000\<rparr> 0
          (\<lambda>n. word_of_nat n + 7) [\<lparr>pubkey = 1\<rparr>, \<lparr>pubkey = 2\<rparr>, \<lparr>pubkey = 3\<rparr>] = Inr p \<and>
        length (hops p) = 3 \<and>
        txID (hops p ! 1) = rxID (hops p ! 0) \<and> txID (hops p ! 2) = rxID (hops p ! 1) \<and>
        rxID (hops p ! 0) = 8 \<and> rxID (hops p ! 1) = 10 \<and> rxID (hops p ! 2) = 12 \<and>
        txID (hops p ! 0) = 7"
proof -
  let ?h = "[\<lparr>pubkey = 1\<rparr>, \<lparr>pubkey = 2\<rparr>, \<lparr>pubkey = 3 :: RouterID\<rparr>]"
  have n: "1 \<le> length ?h" by simp
  from Path_ctor_chain [OF n, of "\<lparr>txID = 0, rxID = 0, router = \<lparr>pubkey = 0\<rparr>, shared = 0, lifetime = 600000\<rparr>"
      0 "\<lambda>n. word_of_nat n + 7"]
  obtain p where p: "Path_ctor \<lparr>txID = 0, rxID = 0, router = \<lparr>pubkey = 0\<rparr>, shared = 0, lifetime = 600000\<rparr> 0
          (\<lambda>n. word_of_nat n + 7) ?h = Inr p"
    and len: "length (hops p) = length ?h"
    and chain: "\<forall>i. 1 \<le> i \<and> i < length ?h \<longrightarrow> txID (hops p ! i) = rxID (hops p ! (i - 1))"
    and rx: "\<forall>i. i < length ?h \<longrightarrow> rxID (hops p ! i) = word_of_nat (2 * i + 1) + 7 \<and> router (hops p ! i) = ?h ! i"
    and tx: "txID (hops p ! 0) = word_of_nat 0 + 7"
    by blast
  have "txID (hops p ! 1) = rxID (hops p ! 0)" using chain [rule_format, of 1] by simp
  moreover have "txID (hops p ! 2) = rxID (hops p ! 1)" using chain [rule_format, of 2] by simp
  moreover have "rxID (hops p ! 0) = 8" using rx [rule_format, of 0] by simp
  moreover have "rxID (hops p ! 1) = 10" using rx [rule_format, of 1] by simp
  moreover have "rxID (hops p ! 2) = 12" using rx [rule_format, of 2] by simp
  moreover have "txID (hops p ! 0) = 7" using tx by simp
  moreover have "length (hops p) = 3" using len by simp
  ultimately show ?thesis using p by blast
qed

section \<open>ForwardLRCM\<close>

lemma ForwardLRCM_loop_drains: "ForwardLRCM_loop msg_frames frames = (msg_frames @ frames, [])"
  by (induction frames arbitrary: msg_frames) simp_all

text \<open>
  C5: for every frame queue, the empty one included, \<open>ForwardLRCM\<close> calls the send
  primitive once, with one \<open>LR_CommitMessage\<close> that holds the frames of the queue in
  their order, leaves the queue empty, and returns what the transport answered.
\<close>

theorem ForwardLRCM_single_send:
  "ForwardLRCM r nextHop frames =
     (accepts r nextHop (LR_CommitMessage frames), [],
      r\<lparr>sends := sends r @ [(nextHop, LR_CommitMessage frames)]\<rparr>)"
proof -
  have drained: "ForwardLRCM_loop [] frames = (frames, [])"
    by (simp add: ForwardLRCM_loop_drains)
  have sent: "SendToOrQueue r nextHop (LR_CommitMessage frames) =
      (accepts r nextHop (LR_CommitMessage frames),
       r\<lparr>sends := sends r @ [(nextHop, LR_CommitMessage frames)]\<rparr>)"
    by (simp add: SendToOrQueue_def)
  show ?thesis
    by (simp add: ForwardLRCM_def drained sent)
qed

theorem ForwardLRCM_single_send_witness:
  "ForwardLRCM \<lparr>accepts = (\<lambda>remote msg. remote = 5), sends = []\<rparr> 5 [] =
     (True, [], \<lparr>accepts = (\<lambda>remote msg. remote = 5), sends = [(5, LR_CommitMessage [])]\<rparr>) \<and>
   ForwardLRCM \<lparr>accepts = (\<lambda>remote msg. remote = 5), sends = []\<rparr> 6 [[1], [2, 2], [3]] =
     (False, [], \<lparr>accepts = (\<lambda>remote msg. remote = 5), sends = [(6, LR_CommitMessage [[1], [2, 2], [3]])]\<rparr>)"
  using ForwardLRCM_single_send [of "\<lparr>accepts = (\<lambda>remote msg. remote = 5), sends = []\<rparr>" 5 "[]"]
    ForwardLRCM_single_send [of "\<lparr>accepts = (\<lambda>remote msg. remote = 5), sends = []\<rparr>" 6 "[[1], [2, 2], [3]]"]
  by simp

section \<open>Expiry of a path\<close>

lemma Path_hop0_Cons: "hops p = hop # hs \<Longrightarrow> Path_hop0 p = Inr hop"
  by (simp add: Path_hop0_def)

lemma Path_ctor_hop0:
  assumes "Path_ctor dflt b0 rnd h = Inr p"
  shows "\<exists>hop hs. hops p = hop # hs \<and> lifetime hop = lifetime dflt \<and> buildStarted p = b0"
proof -
  from assms have n: "h \<noteq> []" and p: "p = \<lparr>hops = Path_link_hops (length h - 1) (Path_init_hops rnd h 0 (replicate (length h) dflt)), buildStarted = b0\<rparr>"
    by (auto simp: Path_ctor_def Let_def split: if_splits)
  let ?hs = "Path_init_hops rnd h 0 (replicate (length h) dflt)"
  have len: "length (hops p) = length h"
    by (simp add: p Path_link_hops_length Path_init_hops_length)
  have 0: "0 < length h" using n by simp
  have "hops p ! 0 = ?hs ! 0"
    using 0 by (simp add: p Path_link_hops_nth Path_init_hops_length)
  also have "\<dots> = dflt\<lparr>router := h ! 0, txID := rnd (2 * 0), rxID := rnd (2 * 0 + 1)\<rparr>"
    using 0 by (simp add: Path_init_hops_nth)
  finally have l: "lifetime (hops p ! 0) = lifetime dflt" by simp
  from len 0 obtain hop hs where c: "hops p = hop # hs" by (cases "hops p") auto
  with l have "lifetime hop = lifetime dflt" by simp
  with c p show ?thesis by simp
qed

text \<open>
  C6: a path with a hop is expired at \<open>now\<close> iff \<open>now - buildStarted > hops[0].lifetime\<close>.
  With a lifetime of one hour (3600000 ms) at hop 0, the path is not expired at the
  time \<open>buildStarted\<close> and is expired two hours (7200000 ms) later; so is a path the
  constructor built from hops whose lifetime is one hour, \<open>buildStarted\<close> being the
  time \<open>b0\<close>.
\<close>

theorem Path_Expired_decides:
  "(hops p = hop # hs \<longrightarrow> Path_Expired p now = Inr (now - buildStarted p > lifetime hop)) \<and>
   (hops p = hop # hs \<and> lifetime hop = 3600000 \<longrightarrow>
      Path_Expired p (buildStarted p) = Inr False \<and>
      Path_Expired p (buildStarted p + 7200000) = Inr True) \<and>
   (Path_ctor dflt b0 rnd h = Inr q \<and> lifetime dflt = 3600000 \<longrightarrow>
      Path_Expired q b0 = Inr False \<and> Path_Expired q (b0 + 7200000) = Inr True)"
proof -
  have a: "Path_Expired p now = Inr (now - buildStarted p > lifetime hop)" if "hops p = hop # hs" for p hop hs now
    using that by (simp add: Path_Expired_def Path_hop0_Cons)
  have b: "Path_Expired p (buildStarted p) = Inr False \<and> Path_Expired p (buildStarted p + 7200000) = Inr True"
    if "hops p = hop # hs" "lifetime hop = 3600000" for p hop hs
    using that by (simp add: a [OF that(1)])
  have c: "Path_Expired q b0 = Inr False \<and> Path_Expired q (b0 + 7200000) = Inr True"
    if "Path_ctor dflt b0 rnd h = Inr q" "lifetime dflt = 3600000"
  proof -
    from Path_ctor_hop0 [OF that(1)] obtain hop hs where "hops q = hop # hs" "lifetime hop = lifetime dflt" "buildStarted q = b0"
      by blast
    with b [of q hop hs] that(2) show ?thesis by simp
  qed
  from a b c show ?thesis by blast
qed

theorem Path_Expired_decides_witness:
  "Path_Expired \<lparr>hops = [\<lparr>txID = 7, rxID = 8, router = \<lparr>pubkey = 1\<rparr>, shared = 0, lifetime = 3600000\<rparr>,
                          \<lparr>txID = 8, rxID = 10, router = \<lparr>pubkey = 2\<rparr>, shared = 0, lifetime = 3600000\<rparr>,
                          \<lparr>txID = 10, rxID = 12, router = \<lparr>pubkey = 3\<rparr>, shared = 0, lifetime = 3600000\<rparr>],
                  buildStarted = 1000\<rparr> 1000 = Inr False \<and>
   Path_Expired \<lparr>hops = [\<lparr>txID = 7, rxID = 8, router = \<lparr>pubkey = 1\<rparr>, shared = 0, lifetime = 3600000\<rparr>,
                          \<lparr>txID = 8, rxID = 10, router = \<lparr>pubkey = 2\<rparr>, shared = 0, lifetime = 3600000\<rparr>,
                          \<lparr>txID = 10, rxID = 12, router = \<lparr>pubkey = 3\<rparr>, shared = 0, lifetime = 3600000\<rparr>],
                  buildStarted = 1000\<rparr> 7201000 = Inr True \<and>
   Path_ctor \<lparr>txID = 0, rxID = 0, router = \<lparr>pubkey = 0\<rparr>, shared = 0, lifetime = 3600000\<rparr> 1000
          (\<lambda>n. word_of_nat n + 7) [\<lparr>pubkey = 1\<rparr>, \<lparr>pubkey = 2\<rparr>, \<lparr>pubkey = 3\<rparr>] =
     Inr \<lparr>hops = [\<lparr>txID = 7, rxID = 8, router = \<lparr>pubkey = 1\<rparr>, shared = 0, lifetime = 3600000\<rparr>,
                          \<lparr>txID = 8, rxID = 10, router = \<lparr>pubkey = 2\<rparr>, shared = 0, lifetime = 3600000\<rparr>,
                          \<lparr>txID = 10, rxID = 12, router = \<lparr>pubkey = 3\<rparr>, shared = 0, lifetime = 3600000\<rparr>],
                  buildStarted = 1000\<rparr>"
proof -
  let ?hop = "\<lparr>txID = 7, rxID = 8, router = \<lparr>pubkey = 1\<rparr>, shared = 0, lifetime = 3600000\<rparr>"
  let ?hs = "[\<lparr>txID = 8, rxID = 10, router = \<lparr>pubkey = 2\<rparr>, shared = 0, lifetime = 3600000\<rparr>,
              \<lparr>txID = 10, rxID = 12, router = \<lparr>pubkey = 3\<rparr>, shared = 0, lifetime = 3600000\<rparr>]"
  let ?p = "\<lparr>hops = ?hop # ?hs, buildStarted = 1000\<rparr>"
  have c: "Path_ctor \<lparr>txID = 0, rxID = 0, router = \<lparr>pubkey = 0\<rparr>, shared = 0, lifetime = 3600000\<rparr> 1000
          (\<lambda>n. word_of_nat n + 7) [\<lparr>pubkey = 1\<rparr>, \<lparr>pubkey = 2\<rparr>, \<lparr>pubkey = 3\<rparr>] = Inr ?p"
    by (simp add: Path_ctor_def Path_init_hops.simps Let_def)
  have "hops ?p = ?hop # ?hs \<and> lifetime ?hop = 3600000" by simp
  with Path_Expired_decides [of ?p ?hop ?hs 0] c show ?thesis by simp
qed

text \<open>
  C9: the age is computed in unsigned 64-bit arithmetic: \<open>Expired(now)\<close> compares
  \<open>(now - buildStarted) mod 2^64\<close> with the lifetime of hop 0. From \<open>buildStarted\<close> on
  this is the age; before \<open>buildStarted\<close> the difference wraps around to
  \<open>2^64 - (buildStarted - now)\<close>, and the path is expired iff that exceeds the lifetime.
\<close>

theorem Path_Expired_wraps:
  assumes "hops p = hop # hs"
  shows "Path_Expired p now = Inr ((uint now - uint (buildStarted p)) mod 2 ^ 64 > uint (lifetime hop)) \<and>
    (buildStarted p \<le> now \<longrightarrow>
       Path_Expired p now = Inr (uint now - uint (buildStarted p) > uint (lifetime hop))) \<and>
    (now < buildStarted p \<longrightarrow>
       Path_Expired p now = Inr (2 ^ 64 - (uint (buildStarted p) - uint now) > uint (lifetime hop)))"
proof -
  have e: "Path_Expired p now = Inr (uint (now - buildStarted p) > uint (lifetime hop))"
    using assms by (simp add: Path_Expired_def Path_hop0_Cons word_less_def)
  have w: "uint (now - buildStarted p) = (uint now - uint (buildStarted p)) mod 2 ^ 64"
    by (simp add: uint_word_ariths)
  have ge: "uint (now - buildStarted p) = uint now - uint (buildStarted p)" if "buildStarted p \<le> now"
    using that by (simp add: uint_sub_if' word_le_def)
  have lt: "uint (now - buildStarted p) = 2 ^ 64 - (uint (buildStarted p) - uint now)" if "now < buildStarted p"
    using that by (simp add: uint_sub_if' word_less_def)
  from e w ge lt show ?thesis by simp
qed

theorem Path_Expired_wraps_witness:
  "Path_Expired \<lparr>hops = [\<lparr>txID = 7, rxID = 8, router = \<lparr>pubkey = 1\<rparr>, shared = 0, lifetime = 600000\<rparr>],
                  buildStarted = 1000\<rparr> 2000 = Inr False \<and>
   Path_Expired \<lparr>hops = [\<lparr>txID = 7, rxID = 8, router = \<lparr>pubkey = 1\<rparr>, shared = 0, lifetime = 600000\<rparr>],
                  buildStarted = 1000\<rparr> 999 = Inr True"
proof -
  let ?hop = "\<lparr>txID = 7, rxID = 8, router = \<lparr>pubkey = 1\<rparr>, shared = 0, lifetime = 600000\<rparr>"
  let ?p = "\<lparr>hops = [?hop], buildStarted = 1000\<rparr>"
  have h: "hops ?p = ?hop # []" by simp
  from Path_Expired_wraps [OF h, of 2000] Path_Expired_wraps [OF h, of 999] show ?thesis
    by simp
qed

section \<open>The layered cipher\<close>

lemma length_xor_stream: "length (xor_stream s i bs) = length bs"
  by (induction bs arbitrary: i) simp_all

lemma xor_stream_twice: "xor_stream s i (xor_stream s i bs) = bs"
  by (induction bs arbitrary: i) (simp_all add: xor.assoc)

lemma xor_stream_commute: "xor_stream s i (xor_stream t i bs) = xor_stream t i (xor_stream s i bs)"
  by (induction bs arbitrary: i) (simp_all add: ac_simps)

lemma xchacha20_sz: "sz (xchacha20 ks buf k n) = sz buf" "cur (xchacha20 ks buf k n) = cur buf"
  by (simp_all add: xchacha20_def)

lemma xchacha20_take_drop:
  "take (sz buf) (base (xchacha20 ks buf k n)) = xor_stream (ks k n) 0 (take (sz buf) (base buf))"
  "drop (sz buf) (base (xchacha20 ks buf k n)) = drop (sz buf) (base buf)"
  by (simp_all add: xchacha20_def length_xor_stream min_def)

lemma xchacha20_twice: "xchacha20 ks (xchacha20 ks buf k n) k n = buf"
proof -
  have "base (xchacha20 ks (xchacha20 ks buf k n) k n) =
      xor_stream (ks k n) 0 (xor_stream (ks k n) 0 (take (sz buf) (base buf))) @ drop (sz buf) (base buf)"
    using xchacha20_take_drop [of buf ks k n]
    by (simp add: xchacha20_def [of ks "xchacha20 ks buf k n"] xchacha20_sz)
  then have "base (xchacha20 ks (xchacha20 ks buf k n) k n) = base buf"
    by (simp add: xor_stream_twice)
  then show ?thesis
    by (simp add: xchacha20_def)
qed

lemma xchacha20_commute:
  "xchacha20 ks (xchacha20 ks buf k n) k' n' = xchacha20 ks (xchacha20 ks buf k' n') k n"
proof -
  have "base (xchacha20 ks (xchacha20 ks buf k n) k' n') =
      xor_stream (ks k' n') 0 (xor_stream (ks k n) 0 (take (sz buf) (base buf))) @ drop (sz buf) (base buf)"
    for k n k' n'
    using xchacha20_take_drop [of buf ks k n]
    by (simp add: xchacha20_def [of ks "xchacha20 ks buf k n"] xchacha20_sz)
  then have "base (xchacha20 ks (xchacha20 ks buf k n) k' n') = base (xchacha20 ks (xchacha20 ks buf k' n') k n)"
    by (simp add: xor_stream_commute)
  then show ?thesis
    by (simp add: xchacha20_def)
qed

lemma Path_cipher_loop_xchacha20:
  "Path_cipher_loop ks hs (xchacha20 ks buf k n) Y = xchacha20 ks (Path_cipher_loop ks hs buf Y) k n"
proof (induction hs arbitrary: buf)
  case Nil
  show ?case by simp
next
  case (Cons hop hs)
  have "Path_cipher_loop ks (hop # hs) (xchacha20 ks buf k n) Y =
        Path_cipher_loop ks hs (xchacha20 ks (xchacha20 ks buf (shared hop) Y) k n) Y"
    by (simp add: xchacha20_commute [of ks buf k n])
  also have "\<dots> = xchacha20 ks (Path_cipher_loop ks hs (xchacha20 ks buf (shared hop) Y) Y) k n"
    by (rule Cons.IH)
  finally show ?case by simp
qed

lemma Path_cipher_loop_twice:
  "Path_cipher_loop ks hs (Path_cipher_loop ks hs buf Y) Y = buf"
proof (induction hs arbitrary: buf)
  case Nil
  show ?case by simp
next
  case (Cons hop hs)
  have "Path_cipher_loop ks (hop # hs) (Path_cipher_loop ks (hop # hs) buf Y) Y =
        Path_cipher_loop ks hs (xchacha20 ks (Path_cipher_loop ks hs (xchacha20 ks buf (shared hop) Y) Y) (shared hop) Y) Y"
    by simp
  also have "\<dots> = Path_cipher_loop ks hs (Path_cipher_loop ks hs (xchacha20 ks (xchacha20 ks buf (shared hop) Y) (shared hop) Y) Y) Y"
    by (simp add: Path_cipher_loop_xchacha20)
  also have "\<dots> = buf"
    by (simp add: xchacha20_twice Cons.IH)
  finally show ?case .
qed

lemma HandleUpstream_Inr:
  "HandleUpstream ks p buf Y r = Inr (ok, buf1, r1) \<Longrightarrow> buf1 = Path_cipher_loop ks (hops p) buf Y"
  by (cases "hops p") (auto simp: HandleUpstream_def Let_def Path_TXID_def Path_Upstream_def Path_hop0_def
      SendToOrQueue_def)

lemma HandleUpstream_Cons:
  "hops p = hop # hs \<Longrightarrow>
   HandleUpstream ks p buf Y r =
     (let buf' = Path_cipher_loop ks (hops p) buf Y;
          msg = RelayUpstreamMessage (take (sz buf') (base buf')) Y (txID hop)
      in Inr (accepts r (pubkey (router hop)) msg, buf',
              r\<lparr>sends := sends r @ [(pubkey (router hop), msg)]\<rparr>))"
  by (simp add: HandleUpstream_def Let_def Path_TXID_def Path_Upstream_def Path_hop0_def
      SendToOrQueue_def)

text \<open>
  C2: for every payload, nonce and hop chain, the cipher loop of \<open>HandleDownstream\<close>
  undoes the cipher loop of \<open>HandleUpstream\<close> under the same nonce: the two passes
  compose to the identity, and \<open>HandleDownstream\<close> on the buffer \<open>HandleUpstream\<close> has
  enciphered hands the original buffer to the parser.
\<close>

theorem layered_cipher_round_trip:
  "Path_cipher_loop ks (hops p) (Path_cipher_loop ks (hops p) buf Y) Y = buf \<and>
   (HandleUpstream ks p buf Y r = Inr (ok, buf1, r1) \<longrightarrow>
      HandleDownstream ks ParseMessageBuffer p buf1 Y = (ParseMessageBuffer buf p, buf))"
  by (auto simp: Path_cipher_loop_twice HandleDownstream_def HandleRoutingMessage_def Let_def
      dest!: HandleUpstream_Inr)

theorem layered_cipher_round_trip_witness:
  "\<exists>ok buf1 r1.
     HandleUpstream (\<lambda>k n i. word_of_nat (unat k + unat n + i))
       \<lparr>hops = [\<lparr>txID = 7, rxID = 8, router = \<lparr>pubkey = 1\<rparr>, shared = 20, lifetime = 600000\<rparr>,
                \<lparr>txID = 8, rxID = 10, router = \<lparr>pubkey = 2\<rparr>, shared = 33, lifetime = 600000\<rparr>],
        buildStarted = 1000\<rparr>
       \<lparr>base = [1, 2, 3, 4], cur = 0, sz = 3\<rparr> 5 \<lparr>accepts = (\<lambda>remote msg. True), sends = []\<rparr>
       = Inr (ok, buf1, r1) \<and>
     base buf1 = [62, 63, 48, 4] \<and>
     sends r1 = [(1, RelayUpstreamMessage [62, 63, 48] 5 7)] \<and>
     HandleDownstream (\<lambda>k n i. word_of_nat (unat k + unat n + i)) (\<lambda>buf p. base buf = [1, 2, 3, 4])
       \<lparr>hops = [\<lparr>txID = 7, rxID = 8, router = \<lparr>pubkey = 1\<rparr>, shared = 20, lifetime = 600000\<rparr>,
                \<lparr>txID = 8, rxID = 10, router = \<lparr>pubkey = 2\<rparr>, shared = 33, lifetime = 600000\<rparr>],
        buildStarted = 1000\<rparr>
       buf1 5 = (True, \<lparr>base = [1, 2, 3, 4], cur = 0, sz = 3\<rparr>)"
proof -
  let ?ks = "\<lambda>(k :: SharedSecret) (n :: TunnelNonce) i. word_of_nat (unat k + unat n + i) :: byte_t"
  let ?hop = "\<lparr>txID = 7, rxID = 8, router = \<lparr>pubkey = 1\<rparr>, shared = 20, lifetime = 600000\<rparr>"
  let ?hs = "[\<lparr>txID = 8, rxID = 10, router = \<lparr>pubkey = 2\<rparr>, shared = 33, lifetime = 600000\<rparr>]"
  let ?p = "\<lparr>hops = ?hop # ?hs, buildStarted = 1000\<rparr>"
  let ?buf = "\<lparr>base = [1, 2, 3, 4], cur = 0, sz = 3\<rparr>"
  let ?r = "\<lparr>accepts = (\<lambda>remote msg. True), sends = []\<rparr>"
  let ?buf1 = "\<lparr>base = [62, 63, 48, 4], cur = 0, sz = 3\<rparr>"
  let ?r1 = "\<lparr>accepts = (\<lambda>remote msg. True), sends = [(1, RelayUpstreamMessage [62, 63, 48] 5 7)]\<rparr>"
  have h: "hops ?p = ?hop # ?hs" by simp
  have up: "HandleUpstream ?ks ?p ?buf 5 ?r = Inr (True, ?buf1, ?r1)"
    by (simp add: HandleUpstream_Cons [OF h] xchacha20_def Let_def)
  from layered_cipher_round_trip [of ?ks ?p ?buf 5 ?r True ?buf1 ?r1 "\<lambda>buf p. base buf = [1, 2, 3, 4]"] up
  have "HandleDownstream ?ks (\<lambda>buf p. base buf = [1, 2, 3, 4]) ?p ?buf1 5 = (True, ?buf)"
    by simp
  with up show ?thesis
    by (intro exI [of _ True] exI [of _ ?buf1] exI [of _ ?r1]) simp
qed


section \<open>SendRoutingMessage\<close>

lemma bencode_write_bytes_StackBuffer:
  "bencode_write_bytes bs (StackBuffer tmp) =
     (if length bs \<le> length tmp
      then (True, \<lparr>base = bs @ drop (length bs) tmp, cur = length bs, sz = length tmp\<rparr>)
      else (False, StackBuffer tmp))"
  by (simp add: bencode_write_bytes_def StackBuffer_def size_left_def)

text \<open>
  C8: \<open>SendRoutingMessage\<close> returns false and sends nothing when \<open>BEncode\<close> fails, which
  is what happens when the serialization does not fit the scratch buffer; when
  \<open>BEncode\<close> succeeds it rewinds the buffer (the size becomes the written extent, the
  cursor returns to the start) and returns the result of \<open>HandleUpstream\<close> on it with
  the nonce drawn. For a message that serializes to the bytes \<open>bs\<close>: if \<open>bs\<close> is longer
  than the scratch buffer the result is false and the router is unchanged, otherwise
  exactly the \<open>length bs\<close> written bytes are enciphered and sent upstream, and the
  result is the answer of the transport.
\<close>

theorem SendRoutingMessage_result:
  "(\<not> fst (BEncode msg (StackBuffer tmp)) \<longrightarrow>
      SendRoutingMessage ks tmp N p msg r = Inr (False, r)) \<and>
   (BEncode msg (StackBuffer tmp) = (True, buf) \<longrightarrow>
      SendRoutingMessage ks tmp N p msg r =
        and_then (HandleUpstream ks p \<lparr>base = base buf, cur = 0, sz = cur buf\<rparr> N r)
          (\<lambda>(sent, buf', r'). Inr (sent, r'))) \<and>
   (length tmp < length bs \<longrightarrow>
      SendRoutingMessage ks tmp N p (IMessage (bencode_write_bytes bs)) r = Inr (False, r)) \<and>
   (length bs \<le> length tmp \<and> hops p = hop # hs \<longrightarrow>
      SendRoutingMessage ks tmp N p (IMessage (bencode_write_bytes bs)) r =
        (let X = take (length bs)
                   (base (Path_cipher_loop ks (hops p)
                      \<lparr>base = bs @ drop (length bs) tmp, cur = 0, sz = length bs\<rparr> N));
             msg = RelayUpstreamMessage X N (txID hop)
         in Inr (accepts r (pubkey (router hop)) msg,
                 r\<lparr>sends := sends r @ [(pubkey (router hop), msg)]\<rparr>)))"
proof -
  have a: "SendRoutingMessage ks tmp N p msg r = Inr (False, r)"
    if "\<not> fst (BEncode msg (StackBuffer tmp))" for msg
    using that by (cases "BEncode msg (StackBuffer tmp)") (simp add: SendRoutingMessage_def)
  have b: "SendRoutingMessage ks tmp N p msg r =
        and_then (HandleUpstream ks p \<lparr>base = base buf, cur = 0, sz = cur buf\<rparr> N r)
          (\<lambda>(sent, buf', r'). Inr (sent, r'))"
    if "BEncode msg (StackBuffer tmp) = (True, buf)" for msg buf
    using that by (cases buf) (simp add: SendRoutingMessage_def)
  have c: "SendRoutingMessage ks tmp N p (IMessage (bencode_write_bytes bs)) r = Inr (False, r)"
    if "length tmp < length bs"
    using that by (intro a) (simp add: bencode_write_bytes_StackBuffer)
  have sz_loop: "sz (Path_cipher_loop ks hs' b Y) = sz b" for hs' b Y
    by (induction hs' arbitrary: b) (simp_all add: xchacha20_sz)
  have d: "SendRoutingMessage ks tmp N p (IMessage (bencode_write_bytes bs)) r =
        (let X = take (length bs)
                   (base (Path_cipher_loop ks (hops p)
                      \<lparr>base = bs @ drop (length bs) tmp, cur = 0, sz = length bs\<rparr> N));
             msg = RelayUpstreamMessage X N (txID hop)
         in Inr (accepts r (pubkey (router hop)) msg,
                 r\<lparr>sends := sends r @ [(pubkey (router hop), msg)]\<rparr>))"
    if "length bs \<le> length tmp" "hops p = hop # hs"
  proof -
    have "BEncode (IMessage (bencode_write_bytes bs)) (StackBuffer tmp) =
        (True, \<lparr>base = bs @ drop (length bs) tmp, cur = length bs, sz = length tmp\<rparr>)"
      using that(1) by (simp add: bencode_write_bytes_StackBuffer)
    from b [OF this] show ?thesis
      by (simp add: HandleUpstream_Cons [OF that(2)] Let_def sz_loop)
  qed
  from a b c d show ?thesis by blast
qed


theorem SendRoutingMessage_result_witness:
  "SendRoutingMessage (\<lambda>k n i. word_of_nat (unat k + unat n + i)) [0, 0, 0, 0] 5
     \<lparr>hops = [\<lparr>txID = 7, rxID = 8, router = \<lparr>pubkey = 1\<rparr>, shared = 20, lifetime = 600000\<rparr>,
              \<lparr>txID = 8, rxID = 10, router = \<lparr>pubkey = 2\<rparr>, shared = 33, lifetime = 600000\<rparr>],
      buildStarted = 1000\<rparr>
     (IMessage (bencode_write_bytes [1, 2, 3, 4, 5])) \<lparr>accepts = (\<lambda>remote msg. True), sends = []\<rparr> =
     Inr (False, \<lparr>accepts = (\<lambda>remote msg. True), sends = []\<rparr>) \<and>
   SendRoutingMessage (\<lambda>k n i. word_of_nat (unat k + unat n + i)) [0, 0, 0, 0] 5
     \<lparr>hops = [\<lparr>txID = 7, rxID = 8, router = \<lparr>pubkey = 1\<rparr>, shared = 20, lifetime = 600000\<rparr>,
              \<lparr>txID = 8, rxID = 10, router = \<lparr>pubkey = 2\<rparr>, shared = 33, lifetime = 600000\<rparr>],
      buildStarted = 1000\<rparr>
     (IMessage (bencode_write_bytes [1, 2, 3])) \<lparr>accepts = (\<lambda>remote msg. True), sends = []\<rparr> =
     Inr (True, \<lparr>accepts = (\<lambda>remote msg. True), sends = [(1, RelayUpstreamMessage [62, 63, 48] 5 7)]\<rparr>)"
proof -
  let ?ks = "\<lambda>(k :: SharedSecret) (n :: TunnelNonce) i. word_of_nat (unat k + unat n + i) :: byte_t"
  let ?hop = "\<lparr>txID = 7, rxID = 8, router = \<lparr>pubkey = 1\<rparr>, shared = 20, lifetime = 600000\<rparr>"
  let ?hs = "[\<lparr>txID = 8, rxID = 10, router = \<lparr>pubkey = 2\<rparr>, shared = 33, lifetime = 600000\<rparr>]"
  let ?p = "\<lparr>hops = ?hop # ?hs, buildStarted = 1000\<rparr>"
  let ?r = "\<lparr>accepts = (\<lambda>remote msg. True), sends = []\<rparr>"
  have big: "length [0, 0, 0, 0 :: byte_t] < length [1, 2, 3, 4, 5 :: byte_t]" by simp
  have small: "length [1, 2, 3 :: byte_t] \<le> length [0, 0, 0, 0 :: byte_t] \<and> hops ?p = ?hop # ?hs" by simp
  from SendRoutingMessage_result [of "IMessage (bencode_write_bytes [1, 2, 3, 4, 5])" "[0, 0, 0, 0]"
      ?ks 5 ?p ?r "StackBuffer []" "[1, 2, 3, 4, 5]" ?hop ?hs] big
  have 1: "SendRoutingMessage ?ks [0, 0, 0, 0] 5 ?p (IMessage (bencode_write_bytes [1, 2, 3, 4, 5])) ?r = Inr (False, ?r)"
    by blast
  from SendRoutingMessage_result [of "IMessage (bencode_write_bytes [1, 2, 3])" "[0, 0, 0, 0]"
      ?ks 5 ?p ?r "StackBuffer []" "[1, 2, 3]" ?hop ?hs] small
  have 2: "SendRoutingMessage ?ks [0, 0, 0, 0] 5 ?p (IMessage (bencode_write_bytes [1, 2, 3])) ?r =
     Inr (True, \<lparr>accepts = (\<lambda>remote msg. True), sends = [(1, RelayUpstreamMessage [62, 63, 48] 5 7)]\<rparr>)"
    by (simp add: xchacha20_def Let_def)
  from 1 2 show ?thesis by simp
qed


section \<open>Lookups in the registry\<close>

lemma MapGet_loop_find:
  "(\<And>i. i \<in> set entries \<Longrightarrow> check (snd i) = Inr (P (snd i))) \<Longrightarrow>
   MapGet_loop check entries = Inr (map_option snd (find (\<lambda>i. P (snd i)) entries))"
  by (induction entries) simp_all

lemma MapHas_loop_ex:
  "(\<And>i. i \<in> set entries \<Longrightarrow> check (snd i) = Inr (P (snd i))) \<Longrightarrow>
   MapHas_loop check entries = Inr (\<exists>i \<in> set entries. P (snd i))"
  by (induction entries) simp_all

lemma set_equal_range: "set (equal_range m k) = {i \<in> set m. fst i = k}"
  by (auto simp: equal_range_def)

lemma own_check:
  "Path_heap ctx p = Some path \<Longrightarrow> hops path \<noteq> [] \<Longrightarrow>
   and_then (deref (Path_heap ctx) p) (\<lambda>path. and_then (Path_Upstream path) (\<lambda>up. Inr (up = remote)))
     = Inr (own_matches ctx remote p)"
  by (cases "hops path") (simp_all add: deref_def Path_Upstream_def Path_hop0_def own_matches_def)

lemma transit_check:
  "TransitHop_heap ctx hop = Some h \<Longrightarrow>
   and_then (deref (TransitHop_heap ctx) hop) (\<lambda>h. Inr (upstream (info h) = remote))
     = Inr (transit_matches ctx remote hop)"
  by (simp add: deref_def transit_matches_def)

lemma GetByUpstream_own_find:
  assumes own: "\<forall>i \<in> set (equal_range (m_OurPaths ctx) pathid).
                  \<exists>path. Path_heap ctx (snd i) = Some path \<and> hops path \<noteq> []"
  shows "GetByUpstream ctx remote pathid =
     (case find (\<lambda>i. own_matches ctx remote (snd i)) (equal_range (m_OurPaths ctx) pathid) of
        Some i \<Rightarrow> Inr (Some (PathPtr (snd i)))
      | None \<Rightarrow>
          and_then
            (MapGet (m_TransitPaths ctx) pathid
               (\<lambda>hop. and_then (deref (TransitHop_heap ctx) hop) (\<lambda>h.
                       Inr (upstream (info h) = remote))))
            (\<lambda>found. Inr (map_option TransitHopPtr found)))"
proof -
  have "MapGet (m_OurPaths ctx) pathid
          (\<lambda>p. and_then (deref (Path_heap ctx) p) (\<lambda>path.
                and_then (Path_Upstream path) (\<lambda>up. Inr (up = remote)))) =
        Inr (map_option snd (find (\<lambda>i. own_matches ctx remote (snd i)) (equal_range (m_OurPaths ctx) pathid)))"
    unfolding MapGet_def
    by (rule MapGet_loop_find) (use own in \<open>auto simp: own_check\<close>)
  then show ?thesis
    by (simp add: GetByUpstream_def split: option.split)
qed

lemma MapGet_transit_find:
  assumes tr: "\<forall>i \<in> set (equal_range (m_TransitPaths ctx) pathid). TransitHop_heap ctx (snd i) \<noteq> None"
  shows "MapGet (m_TransitPaths ctx) pathid
           (\<lambda>hop. and_then (deref (TransitHop_heap ctx) hop) (\<lambda>h. Inr (upstream (info h) = remote))) =
         Inr (map_option snd (find (\<lambda>i. transit_matches ctx remote (snd i))
                                (equal_range (m_TransitPaths ctx) pathid)))"
  unfolding MapGet_def
  by (rule MapGet_loop_find) (use tr in \<open>auto simp: transit_check\<close>)

text \<open>
  C4: let every own path registered under the id be valid (allocated, with a hop).
  If an own path registered under the id has \<open>hops[0].router = remote\<close>, \<open>GetByUpstream\<close>
  returns an own path registered under the id with that router, the first such
  entry of the registry, whatever the transit registry holds, and it returns exactly
  that path when no other own path under the id matches. If no own path matches and
  the transit hops registered under the id are allocated, it returns the first transit
  hop under the id whose upstream is \<open>remote\<close>, and nullptr if there is none.
\<close>

theorem GetByUpstream_own_first:
  assumes own: "\<forall>i \<in> set (equal_range (m_OurPaths ctx) pathid).
                  \<exists>path. Path_heap ctx (snd i) = Some path \<and> hops path \<noteq> []"
  shows "((\<exists>p. (pathid, p) \<in> set (m_OurPaths ctx) \<and> own_matches ctx remote p) \<longrightarrow>
            (\<exists>p. GetByUpstream ctx remote pathid = Inr (Some (PathPtr p)) \<and>
                  (pathid, p) \<in> set (m_OurPaths ctx) \<and> own_matches ctx remote p \<and>
                  find (\<lambda>i. own_matches ctx remote (snd i)) (equal_range (m_OurPaths ctx) pathid)
                    = Some (pathid, p))) \<and>
         ((pathid, p) \<in> set (m_OurPaths ctx) \<and> own_matches ctx remote p \<and>
          (\<forall>p'. (pathid, p') \<in> set (m_OurPaths ctx) \<and> own_matches ctx remote p' \<longrightarrow> p' = p) \<longrightarrow>
            GetByUpstream ctx remote pathid = Inr (Some (PathPtr p))) \<and>
         (\<not> (\<exists>p. (pathid, p) \<in> set (m_OurPaths ctx) \<and> own_matches ctx remote p) \<and>
          (\<forall>i \<in> set (equal_range (m_TransitPaths ctx) pathid). TransitHop_heap ctx (snd i) \<noteq> None) \<longrightarrow>
            GetByUpstream ctx remote pathid =
              Inr (map_option (\<lambda>i. TransitHopPtr (snd i))
                    (find (\<lambda>i. transit_matches ctx remote (snd i))
                       (equal_range (m_TransitPaths ctx) pathid)))) \<and>
         (\<not> (\<exists>p. (pathid, p) \<in> set (m_OurPaths ctx) \<and> own_matches ctx remote p) \<and>
          (\<forall>i \<in> set (equal_range (m_TransitPaths ctx) pathid). TransitHop_heap ctx (snd i) \<noteq> None) \<and>
          \<not> (\<exists>hop. (pathid, hop) \<in> set (m_TransitPaths ctx) \<and> transit_matches ctx remote hop) \<longrightarrow>
            GetByUpstream ctx remote pathid = Inr None)"
proof -
  note eq = GetByUpstream_own_find [OF own, of remote]
  let ?own = "find (\<lambda>i. own_matches ctx remote (snd i)) (equal_range (m_OurPaths ctx) pathid)"
  let ?tr = "find (\<lambda>i. transit_matches ctx remote (snd i)) (equal_range (m_TransitPaths ctx) pathid)"
  have own_Some: "\<exists>q. ?own = Some (pathid, q) \<and> (pathid, q) \<in> set (m_OurPaths ctx) \<and> own_matches ctx remote q"
    if "(pathid, p) \<in> set (m_OurPaths ctx)" "own_matches ctx remote p" for p
  proof -
    from that have "\<exists>i \<in> set (equal_range (m_OurPaths ctx) pathid). own_matches ctx remote (snd i)"
      by (force simp: set_equal_range)
    then obtain i where i: "?own = Some i"
      by (cases ?own) (auto simp: find_None_iff)
    then have "i \<in> set (equal_range (m_OurPaths ctx) pathid)" "own_matches ctx remote (snd i)"
      by (auto simp: find_Some_iff)
    with i show ?thesis
      by (cases i) (auto simp: set_equal_range)
  qed
  have own_None: "?own = None" if "\<not> (\<exists>p. (pathid, p) \<in> set (m_OurPaths ctx) \<and> own_matches ctx remote p)"
    using that by (auto simp: find_None_iff set_equal_range)
  have tr_None: "?tr = None"
    if "\<not> (\<exists>hop. (pathid, hop) \<in> set (m_TransitPaths ctx) \<and> transit_matches ctx remote hop)"
    using that by (auto simp: find_None_iff set_equal_range)
  have 1: "\<exists>q. GetByUpstream ctx remote pathid = Inr (Some (PathPtr q)) \<and>
                  (pathid, q) \<in> set (m_OurPaths ctx) \<and> own_matches ctx remote q \<and> ?own = Some (pathid, q)"
    if "\<exists>p. (pathid, p) \<in> set (m_OurPaths ctx) \<and> own_matches ctx remote p"
  proof -
    from that own_Some obtain q where "?own = Some (pathid, q)" "(pathid, q) \<in> set (m_OurPaths ctx)"
      "own_matches ctx remote q" by blast
    then show ?thesis by (auto simp: eq)
  qed
  have 2: "GetByUpstream ctx remote pathid = Inr (Some (PathPtr p))"
    if "(pathid, p) \<in> set (m_OurPaths ctx)" "own_matches ctx remote p"
       "\<forall>p'. (pathid, p') \<in> set (m_OurPaths ctx) \<and> own_matches ctx remote p' \<longrightarrow> p' = p"
  proof -
    from 1 that(1,2) obtain q where q: "GetByUpstream ctx remote pathid = Inr (Some (PathPtr q))"
      "(pathid, q) \<in> set (m_OurPaths ctx)" "own_matches ctx remote q" by blast
    with that(3) have "q = p" by blast
    with q show ?thesis by simp
  qed
  have 3: "GetByUpstream ctx remote pathid = Inr (map_option (\<lambda>i. TransitHopPtr (snd i)) ?tr)"
    if "\<not> (\<exists>p. (pathid, p) \<in> set (m_OurPaths ctx) \<and> own_matches ctx remote p)"
       "\<forall>i \<in> set (equal_range (m_TransitPaths ctx) pathid). TransitHop_heap ctx (snd i) \<noteq> None"
    using own_None [OF that(1)] MapGet_transit_find [OF that(2), of remote]
    by (simp add: eq option.map_comp comp_def)
  have 4: "GetByUpstream ctx remote pathid = Inr None"
    if "\<not> (\<exists>p. (pathid, p) \<in> set (m_OurPaths ctx) \<and> own_matches ctx remote p)"
       "\<forall>i \<in> set (equal_range (m_TransitPaths ctx) pathid). TransitHop_heap ctx (snd i) \<noteq> None"
       "\<not> (\<exists>hop. (pathid, hop) \<in> set (m_TransitPaths ctx) \<and> transit_matches ctx remote hop)"
    using 3 [OF that(1,2)] tr_None [OF that(3)] by simp
  from 1 2 3 4 show ?thesis by blast
qed

theorem GetByUpstream_own_first_witness:
  "GetByUpstream ctx_own_and_transit 9 7 = Inr (Some (PathPtr 1)) \<and>
   transit_matches ctx_own_and_transit 9 1 \<and>
   GetByUpstream ctx_own_and_transit 4 7 = Inr (Some (TransitHopPtr 2)) \<and>
   GetByUpstream ctx_own_and_transit 5 7 = Inr None"
proof -
  have own: "\<forall>i \<in> set (equal_range (m_OurPaths ctx_own_and_transit) 7).
                  \<exists>path. Path_heap ctx_own_and_transit (snd i) = Some path \<and> hops path \<noteq> []"
    by (simp add: ctx_own_and_transit_def equal_range_def)
  have tr: "\<forall>i \<in> set (equal_range (m_TransitPaths ctx_own_and_transit) 7).
                  TransitHop_heap ctx_own_and_transit (snd i) \<noteq> None"
    by (simp add: ctx_own_and_transit_def equal_range_def)
  have reg: "(7, 1) \<in> set (m_OurPaths ctx_own_and_transit)"
    by (simp add: ctx_own_and_transit_def)
  have only: "\<forall>p'. (7, p') \<in> set (m_OurPaths ctx_own_and_transit) \<and> own_matches ctx_own_and_transit 9 p' \<longrightarrow> p' = 1"
    by (simp add: ctx_own_and_transit_def)
  have m9: "own_matches ctx_own_and_transit 9 1"
    by (simp add: own_matches_def ctx_own_and_transit_def)
  have t9: "transit_matches ctx_own_and_transit 9 1"
    by (simp add: transit_matches_def ctx_own_and_transit_def)
  have no4: "\<not> (\<exists>p. (7, p) \<in> set (m_OurPaths ctx_own_and_transit) \<and> own_matches ctx_own_and_transit 4 p)"
    by (simp add: own_matches_def ctx_own_and_transit_def)
  have no5: "\<not> (\<exists>p. (7, p) \<in> set (m_OurPaths ctx_own_and_transit) \<and> own_matches ctx_own_and_transit 5 p)"
    by (simp add: own_matches_def ctx_own_and_transit_def)
  have not5: "\<not> (\<exists>hop. (7, hop) \<in> set (m_TransitPaths ctx_own_and_transit) \<and> transit_matches ctx_own_and_transit 5 hop)"
    by (auto simp: transit_matches_def ctx_own_and_transit_def)
  have f4: "find (\<lambda>i. transit_matches ctx_own_and_transit 4 (snd i))
                (equal_range (m_TransitPaths ctx_own_and_transit) 7) = Some (7, 2)"
    by (simp add: transit_matches_def ctx_own_and_transit_def equal_range_def)
  from GetByUpstream_own_first [OF own, of 9 1] reg m9 only
  have 1: "GetByUpstream ctx_own_and_transit 9 7 = Inr (Some (PathPtr 1))"
    by blast
  from GetByUpstream_own_first [OF own, of 4 1] no4 tr f4
  have 2: "GetByUpstream ctx_own_and_transit 4 7 = Inr (Some (TransitHopPtr 2))"
    by simp
  from GetByUpstream_own_first [OF own, of 5 1] no5 tr not5
  have 3: "GetByUpstream ctx_own_and_transit 5 7 = Inr None"
    by blast
  from 1 t9 2 3 show ?thesis by simp
qed

section \<open>The expiry sweep\<close>

lemma ExpirePaths_scan_result:
  assumes "\<forall>i \<in> set m. heap (snd i) \<noteq> None" "sorted acc" "distinct acc"
  shows "\<exists>rs. ExpirePaths_scan heap now m acc = Inr rs \<and> sorted rs \<and> distinct rs \<and>
              set rs = set acc \<union> expired_hops heap now m"
  using assms
proof (induction m arbitrary: acc)
  case Nil
  then show ?case by (simp add: expired_hops_def)
next
  case (Cons itr m)
  from Cons.prems(1) obtain h where h: "heap (snd itr) = Some h" by auto
  let ?acc = "if TransitHop_Expired h now then insort_insert (snd itr) acc else acc"
  have "sorted ?acc" "distinct ?acc"
    using Cons.prems by (simp_all add: sorted_insort_insert distinct_insort_insert)
  with Cons.IH [of ?acc] Cons.prems(1)
  obtain rs where rs: "ExpirePaths_scan heap now m ?acc = Inr rs" "sorted rs" "distinct rs"
    "set rs = set ?acc \<union> expired_hops heap now m"
    by auto
  have "set ?acc \<union> expired_hops heap now m = set acc \<union> expired_hops heap now (itr # m)"
    using h by (auto simp: expired_hops_def set_insort_insert)
  with rs h show ?case
    by (simp add: deref_def)
qed

lemma ExpirePaths_remove_result:
  assumes "distinct ps" "\<forall>p \<in> set ps. heap p \<noteq> None"
  shows "ExpirePaths_remove ps m heap =
           Inr (filter (\<lambda>i. fst i \<notin> erased_keys heap (set ps)) m,
                (\<lambda>q. if q \<in> set ps then None else heap q))"
  using assms
proof (induction ps arbitrary: m heap)
  case Nil
  then show ?case by (simp add: erased_keys_def)
next
  case (Cons p ps)
  from Cons.prems obtain h where h: "heap p = Some h" by auto
  let ?heap = "heap(p := None)"
  let ?m = "erase (erase m (TransitHopInfo.txID (info h))) (TransitHopInfo.rxID (info h))"
  have d: "distinct ps" "\<forall>q \<in> set ps. ?heap q \<noteq> None"
    using Cons.prems by auto
  have keys: "erased_keys heap (set (p # ps)) =
      {TransitHopInfo.txID (info h), TransitHopInfo.rxID (info h)} \<union> erased_keys ?heap (set ps)"
    using Cons.prems(1) h by (auto simp: erased_keys_def)
  have m: "?m = filter (\<lambda>i. fst i \<noteq> TransitHopInfo.txID (info h) \<and> fst i \<noteq> TransitHopInfo.rxID (info h)) m"
    by (induction m) (auto simp: erase_def)
  have "ExpirePaths_remove (p # ps) m heap = ExpirePaths_remove ps ?m ?heap"
    using h by (simp add: deref_def)
  also have "\<dots> = Inr (filter (\<lambda>i. fst i \<notin> erased_keys ?heap (set ps)) ?m,
                (\<lambda>q. if q \<in> set ps then None else ?heap q))"
    by (rule Cons.IH [OF d])
  also have "filter (\<lambda>i. fst i \<notin> erased_keys ?heap (set ps)) ?m =
             filter (\<lambda>i. fst i \<notin> erased_keys heap (set (p # ps))) m"
    unfolding m keys by (auto intro: filter_cong)
  also have "(\<lambda>q. if q \<in> set ps then None else ?heap q) = (\<lambda>q. if q \<in> set (p # ps) then None else heap q)"
    by auto
  finally show ?case .
qed

lemma ExpirePaths_result:
  assumes "transit_ok ctx"
  shows "ExpirePaths ctx now =
     Inr (ctx\<lparr>m_TransitPaths :=
                 filter (\<lambda>i. fst i \<notin> erased_keys (TransitHop_heap ctx)
                                        (expired_hops (TransitHop_heap ctx) now (m_TransitPaths ctx)))
                   (m_TransitPaths ctx),
               TransitHop_heap :=
                 (\<lambda>q. if q \<in> expired_hops (TransitHop_heap ctx) now (m_TransitPaths ctx) then None
                      else TransitHop_heap ctx q)\<rparr>)"
proof -
  from assms have ok: "\<forall>i \<in> set (m_TransitPaths ctx). TransitHop_heap ctx (snd i) \<noteq> None"
    by (simp add: transit_ok_def)
  from ExpirePaths_scan_result [OF ok, of "[]" now]
  obtain rs where rs: "ExpirePaths_scan (TransitHop_heap ctx) now (m_TransitPaths ctx) [] = Inr rs"
    "distinct rs" "set rs = expired_hops (TransitHop_heap ctx) now (m_TransitPaths ctx)"
    by auto
  have "\<forall>p \<in> set rs. TransitHop_heap ctx p \<noteq> None"
    using rs(3) by (auto simp: expired_hops_def split: option.splits)
  from ExpirePaths_remove_result [OF rs(2) this, of "m_TransitPaths ctx"] rs(1,3)
  show ?thesis
    by (simp add: ExpirePaths_def)
qed

lemma HasTransitHop_iff:
  assumes "transit_ok ctx"
  shows "HasTransitHop ctx hinfo =
     Inr (\<exists>i \<in> set (m_TransitPaths ctx). fst i = TransitHopInfo.txID hinfo \<and>
            (\<exists>h. TransitHop_heap ctx (snd i) = Some h \<and> hinfo = info h))"
proof -
  have "MapHas_loop (\<lambda>hop. and_then (deref (TransitHop_heap ctx) hop) (\<lambda>h. Inr (hinfo = info h)))
          (equal_range (m_TransitPaths ctx) (TransitHopInfo.txID hinfo)) =
        Inr (\<exists>i \<in> set (equal_range (m_TransitPaths ctx) (TransitHopInfo.txID hinfo)).
               (\<exists>h. TransitHop_heap ctx (snd i) = Some h \<and> hinfo = info h))"
    by (rule MapHas_loop_ex) (use assms in \<open>auto simp: transit_ok_def set_equal_range deref_def\<close>)
  moreover have "(\<exists>i \<in> set (equal_range (m_TransitPaths ctx) (TransitHopInfo.txID hinfo)).
               (\<exists>h. TransitHop_heap ctx (snd i) = Some h \<and> hinfo = info h)) =
      (\<exists>i \<in> set (m_TransitPaths ctx). fst i = TransitHopInfo.txID hinfo \<and>
            (\<exists>h. TransitHop_heap ctx (snd i) = Some h \<and> hinfo = info h))"
    unfolding set_equal_range by blast
  ultimately show ?thesis
    by (simp only: HasTransitHop_def MapHas_def)
qed

lemma set_MapPut: "set (MapPut pos m k v) = insert (k, v) (set m)"
proof -
  have "set (take pos m) \<union> set (drop pos m) = set m"
    by (metis append_take_drop_id set_append)
  then show ?thesis
    by (auto simp: MapPut_def)
qed

lemma PutTransitHop_result:
  assumes "TransitHop_heap ctx hop = Some h"
  shows "\<exists>ctx1. PutTransitHop pos1 pos2 ctx hop = Inr ctx1 \<and>
           TransitHop_heap ctx1 = TransitHop_heap ctx \<and> m_OurPaths ctx1 = m_OurPaths ctx \<and>
           Path_heap ctx1 = Path_heap ctx \<and>
           set (m_TransitPaths ctx1) =
             {(TransitHopInfo.txID (info h), hop), (TransitHopInfo.rxID (info h), hop)} \<union>
             set (m_TransitPaths ctx)"
  using assms by (auto simp: PutTransitHop_def deref_def set_MapPut)

lemma ExpirePaths_HasTransitHop_False:
  assumes ok: "transit_ok ctx" and h: "TransitHop_heap ctx hop = Some h"
    and reg: "hop \<in> snd ` set (m_TransitPaths ctx)" and ex: "TransitHop_Expired h now"
  shows "\<exists>ctx2. ExpirePaths ctx now = Inr ctx2 \<and> HasTransitHop ctx2 (info h) = Inr False"
proof -
  let ?E = "expired_hops (TransitHop_heap ctx) now (m_TransitPaths ctx)"
  let ?K = "erased_keys (TransitHop_heap ctx) ?E"
  let ?ctx2 = "ctx\<lparr>m_TransitPaths := filter (\<lambda>i. fst i \<notin> ?K) (m_TransitPaths ctx),
               TransitHop_heap := (\<lambda>q. if q \<in> ?E then None else TransitHop_heap ctx q)\<rparr>"
  have r: "ExpirePaths ctx now = Inr ?ctx2"
    by (rule ExpirePaths_result [OF ok])
  have "hop \<in> ?E" using h reg ex by (auto simp: expired_hops_def)
  then have k: "TransitHopInfo.txID (info h) \<in> ?K"
    using h by (auto simp: erased_keys_def)
  have "equal_range (filter (\<lambda>i. fst i \<notin> ?K) (m_TransitPaths ctx)) (TransitHopInfo.txID (info h)) = []"
    using k by (auto simp: equal_range_def filter_empty_conv)
  then have "HasTransitHop ?ctx2 (info h) = Inr False"
    by (simp add: HasTransitHop_def MapHas_def)
  with r show ?thesis by blast
qed

text \<open>
  What the sweep does keep: no entry is left under the TX or RX id of an expired
  transit hop, and the hop is released; an entry of a live transit hop stays when its
  key is not the TX or RX id of an expired one.
\<close>

lemma ExpirePaths_expired_unreachable:
  assumes ok: "transit_ok ctx" and h: "TransitHop_heap ctx hop = Some h"
    and reg: "hop \<in> snd ` set (m_TransitPaths ctx)" and ex: "TransitHop_Expired h now"
  shows "\<exists>ctx2. ExpirePaths ctx now = Inr ctx2 \<and>
           equal_range (m_TransitPaths ctx2) (TransitHopInfo.txID (info h)) = [] \<and>
           equal_range (m_TransitPaths ctx2) (TransitHopInfo.rxID (info h)) = [] \<and>
           TransitHop_heap ctx2 hop = None"
proof -
  let ?E = "expired_hops (TransitHop_heap ctx) now (m_TransitPaths ctx)"
  let ?K = "erased_keys (TransitHop_heap ctx) ?E"
  have e: "hop \<in> ?E" using h reg ex by (auto simp: expired_hops_def)
  then have "TransitHopInfo.txID (info h) \<in> ?K" "TransitHopInfo.rxID (info h) \<in> ?K"
    using h by (auto simp: erased_keys_def)
  then have "equal_range (filter (\<lambda>i. fst i \<notin> ?K) (m_TransitPaths ctx)) (TransitHopInfo.txID (info h)) = []"
    "equal_range (filter (\<lambda>i. fst i \<notin> ?K) (m_TransitPaths ctx)) (TransitHopInfo.rxID (info h)) = []"
    by (auto simp: equal_range_def filter_empty_conv)
  with e show ?thesis
    by (simp add: ExpirePaths_result [OF ok])
qed

lemma ExpirePaths_keeps_unshared:
  assumes ok: "transit_ok ctx" and h: "TransitHop_heap ctx hop = Some h"
    and reg: "(k, hop) \<in> set (m_TransitPaths ctx)" and live: "\<not> TransitHop_Expired h now"
    and unshared: "k \<notin> erased_keys (TransitHop_heap ctx)
                         (expired_hops (TransitHop_heap ctx) now (m_TransitPaths ctx))"
  shows "\<exists>ctx2. ExpirePaths ctx now = Inr ctx2 \<and> (k, hop) \<in> set (m_TransitPaths ctx2) \<and>
           TransitHop_heap ctx2 hop = Some h"
proof -
  have "hop \<notin> expired_hops (TransitHop_heap ctx) now (m_TransitPaths ctx)"
    using h live by (auto simp: expired_hops_def)
  with reg unshared h show ?thesis
    by (simp add: ExpirePaths_result [OF ok])
qed

text \<open>
  \<open>MapDel\<close> with a check that never faults erases the entries of the key that pass
  the check and keeps every other entry. With the check \<open>is this pointer hopA\<close> on the
  registry of the two hops that share their TX id, the entry of \<open>hopB\<close> stays.
\<close>

lemma MapDel_filter:
  "MapDel m k (\<lambda>v. Inr (P v)) = Inr (filter (\<lambda>i. \<not> (fst i = k \<and> P (snd i))) m)"
  by (induction m) simp_all

lemma MapDel_keeps_hopB:
  "MapDel [(1, 1), (2, 1), (1, 2), (3, 2)] (1 :: PathID_t) (\<lambda>p. Inr (p = (1 :: nat))) =
     Inr [(2, 1), (1, 2), (3, 2)]"
  by (simp add: MapDel_filter)

text \<open>
  C1: the sweep in a registry where an expired and a live transit hop share their TX
  id. \<open>hopA\<close> and \<open>hopB\<close> are registered with \<open>PutTransitHop\<close>; at time 700000 \<open>hopA\<close> is
  expired and \<open>hopB\<close> is not, and \<open>hopB\<close> is found under its TX id. After \<open>ExpirePaths\<close>,
  \<open>hopB\<close> is still allocated and still registered under its RX id, but the lookup
  under its TX id finds nothing: \<open>map.erase(p->info.txID)\<close> for \<open>hopA\<close> has erased the
  entry of \<open>hopB\<close> too.
\<close>

theorem ExpirePaths_unregisters_live_hop:
  "\<exists>ctx1 ctx2 ctx3.
     PutTransitHop 0 1 ctx_two_hops 1 = Inr ctx1 \<and>
     PutTransitHop 2 3 ctx1 2 = Inr ctx2 \<and>
     TransitHop_Expired hopA 700000 \<and>
     \<not> TransitHop_Expired hopB 700000 \<and>
     GetByUpstream ctx2 20 1 = Inr (Some (TransitHopPtr 2)) \<and>
     ExpirePaths ctx2 700000 = Inr ctx3 \<and>
     TransitHop_heap ctx3 2 = Some hopB \<and>
     m_TransitPaths ctx3 = [(3, 2)] \<and>
     GetByUpstream ctx3 20 1 = Inr None \<and>
     GetByUpstream ctx3 20 3 = Inr (Some (TransitHopPtr 2))"
proof -
  let ?ctx1 = "ctx_two_hops\<lparr>m_TransitPaths := [(1, 1), (2, 1)]\<rparr>"
  let ?ctx2 = "ctx_two_hops\<lparr>m_TransitPaths := [(1, 1), (2, 1), (1, 2), (3, 2)]\<rparr>"
  let ?ctx3 = "ctx_two_hops\<lparr>m_TransitPaths := [(3, 2)],
                             TransitHop_heap := [1 \<mapsto> hopA, 2 \<mapsto> hopB](1 := None)\<rparr>"
  have put1: "PutTransitHop 0 1 ctx_two_hops 1 = Inr ?ctx1"
    by (simp add: PutTransitHop_def ctx_two_hops_def deref_def MapPut_def hopA_def)
  have put2: "PutTransitHop 2 3 ?ctx1 2 = Inr ?ctx2"
    by (simp add: PutTransitHop_def ctx_two_hops_def deref_def MapPut_def hopB_def)
  have ex: "TransitHop_Expired hopA 700000" "\<not> TransitHop_Expired hopB 700000"
    by (simp_all add: TransitHop_Expired_def hopA_def hopB_def)
  have before: "GetByUpstream ?ctx2 20 1 = Inr (Some (TransitHopPtr 2))"
    by (simp add: GetByUpstream_def MapGet_def equal_range_def ctx_two_hops_def deref_def hopA_def hopB_def)
  have sweep: "ExpirePaths ?ctx2 700000 = Inr ?ctx3"
    by (simp add: ExpirePaths_def ctx_two_hops_def deref_def TransitHop_Expired_def hopA_def hopB_def
        insort_insert_key_def erase_def)
  have after: "TransitHop_heap ?ctx3 2 = Some hopB" "m_TransitPaths ?ctx3 = [(3, 2)]"
    by simp_all
  have tx: "GetByUpstream ?ctx3 20 1 = Inr None"
    by (simp add: GetByUpstream_def MapGet_def equal_range_def ctx_two_hops_def deref_def hopA_def hopB_def)
  have rx: "GetByUpstream ?ctx3 20 3 = Inr (Some (TransitHopPtr 2))"
    by (simp add: GetByUpstream_def MapGet_def equal_range_def ctx_two_hops_def deref_def hopA_def hopB_def)
  from put1 put2 ex before sweep after tx rx show ?thesis
    by blast
qed

text \<open>
  C7: in a registry whose pointers are valid, after \<open>PutTransitHop(hop)\<close> the call
  \<open>HasTransitHop(hop->info)\<close> returns true; after a sweep at a time when the hop is
  expired, run right after the registration or in any later state of the registry
  that still holds the hop, it returns false.
\<close>

theorem HasTransitHop_put_then_reap:
  assumes "transit_ok ctx" and "TransitHop_heap ctx hop = Some h"
  shows "\<exists>ctx1. PutTransitHop pos1 pos2 ctx hop = Inr ctx1 \<and>
           HasTransitHop ctx1 (info h) = Inr True \<and>
           (TransitHop_Expired h now \<longrightarrow>
              (\<exists>ctx2. ExpirePaths ctx1 now = Inr ctx2 \<and> HasTransitHop ctx2 (info h) = Inr False)) \<and>
           (\<forall>ctx'. transit_ok ctx' \<and> TransitHop_heap ctx' hop = Some h \<and>
                   hop \<in> snd ` set (m_TransitPaths ctx') \<and> TransitHop_Expired h now \<longrightarrow>
              (\<exists>ctx2. ExpirePaths ctx' now = Inr ctx2 \<and> HasTransitHop ctx2 (info h) = Inr False))"
proof -
  from PutTransitHop_result [OF assms(2), of pos1 pos2]
  obtain ctx1 where put: "PutTransitHop pos1 pos2 ctx hop = Inr ctx1"
    and heap: "TransitHop_heap ctx1 = TransitHop_heap ctx"
    and m: "set (m_TransitPaths ctx1) =
             {(TransitHopInfo.txID (info h), hop), (TransitHopInfo.rxID (info h), hop)} \<union>
             set (m_TransitPaths ctx)"
    by blast
  have ok1: "transit_ok ctx1"
    using assms by (auto simp: transit_ok_def heap m)
  have "\<exists>i \<in> set (m_TransitPaths ctx1). fst i = TransitHopInfo.txID (info h) \<and>
            (\<exists>g. TransitHop_heap ctx1 (snd i) = Some g \<and> info h = info g)"
    using assms(2) by (auto simp: m heap)
  then have has: "HasTransitHop ctx1 (info h) = Inr True"
    by (simp add: HasTransitHop_iff [OF ok1])
  have reg: "hop \<in> snd ` set (m_TransitPaths ctx1)"
    by (force simp: m)
  have h1: "TransitHop_heap ctx1 hop = Some h"
    using assms(2) heap by simp
  have reap: "\<exists>ctx2. ExpirePaths ctx1 now = Inr ctx2 \<and> HasTransitHop ctx2 (info h) = Inr False"
    if "TransitHop_Expired h now"
    by (rule ExpirePaths_HasTransitHop_False [OF ok1 h1 reg that])
  have later: "\<exists>ctx2. ExpirePaths ctx' now = Inr ctx2 \<and> HasTransitHop ctx2 (info h) = Inr False"
    if "transit_ok ctx'" "TransitHop_heap ctx' hop = Some h" "hop \<in> snd ` set (m_TransitPaths ctx')"
      "TransitHop_Expired h now" for ctx'
    using that by (rule ExpirePaths_HasTransitHop_False)
  from put has reap later show ?thesis by blast
qed

theorem HasTransitHop_put_then_reap_witness:
  "\<exists>ctx1 ctx2.
     PutTransitHop 0 1 ctx_two_hops 1 = Inr ctx1 \<and>
     HasTransitHop ctx1 (info hopA) = Inr True \<and>
     ExpirePaths ctx1 700000 = Inr ctx2 \<and>
     HasTransitHop ctx2 (info hopA) = Inr False"
proof -
  have ok: "transit_ok ctx_two_hops"
    by (simp add: transit_ok_def ctx_two_hops_def)
  have h: "TransitHop_heap ctx_two_hops 1 = Some hopA"
    by (simp add: ctx_two_hops_def)
  have ex: "TransitHop_Expired hopA 700000"
    by (simp add: TransitHop_Expired_def hopA_def)
  from HasTransitHop_put_then_reap [OF ok h, of 0 1 700000] ex show ?thesis
    by blast
qed

section \<open>BEncodeReadArray stays within the array\<close>

lemma array_loop_result:
  "\<exists>r. bencode_read_list_loop (BEncodeReadArray_sink BDecode) (array, idx, calls) buffer = Some r \<and>
       (\<forall>ok array' idx' calls' buffer'. r = Inr (ok, (array', idx', calls'), buffer') \<longrightarrow>
          length array' = length array \<and> idx \<le> idx' \<and> calls' = calls @ [idx..<idx'] \<and>
          (idx \<le> length array \<longrightarrow> idx' \<le> length array))"
proof (induction "length array - idx" arbitrary: array idx calls buffer rule: less_induct)
  case less
  show ?case
  proof (cases "size_left buffer = 0")
    case True
    then show ?thesis
      by (subst bencode_read_list_loop.simps) simp
  next
    case left: False
    show ?thesis
    proof (cases "peek buffer")
      case (Inl e)
      with left show ?thesis
        by (subst bencode_read_list_loop.simps) simp
    next
      case (Inr c)
      show ?thesis
      proof (cases "c = 101")
        case True
        with left Inr show ?thesis
          by (subst bencode_read_list_loop.simps) simp
      next
        case elem: False
        show ?thesis
        proof (cases "idx \<ge> length array")
          case True
          with left Inr elem show ?thesis
            by (subst bencode_read_list_loop.simps) (simp add: BEncodeReadArray_sink_def)
        next
          case room: False
          obtain ok a buffer' where d: "BDecode (array ! idx) buffer = (ok, a, buffer')"
            by (cases "BDecode (array ! idx) buffer") auto
          show ?thesis
          proof (cases ok)
            case False
            with left Inr elem room d show ?thesis
              by (subst bencode_read_list_loop.simps) (simp add: BEncodeReadArray_sink_def)
          next
            case True
            have "length (array[idx := a]) - (idx + 1) < length array - idx"
              using room by simp
            from less [OF this, of "calls @ [idx]" buffer']
            obtain r where r: "bencode_read_list_loop (BEncodeReadArray_sink BDecode)
                  (array[idx := a], idx + 1, calls @ [idx]) buffer' = Some r"
              and post: "\<forall>ok array' idx' calls' buffer''. r = Inr (ok, (array', idx', calls'), buffer'') \<longrightarrow>
                 length array' = length (array[idx := a]) \<and> idx + 1 \<le> idx' \<and>
                 calls' = (calls @ [idx]) @ [idx + 1..<idx'] \<and>
                 (idx + 1 \<le> length (array[idx := a]) \<longrightarrow> idx' \<le> length (array[idx := a]))"
              by blast
            have step: "bencode_read_list_loop (BEncodeReadArray_sink BDecode) (array, idx, calls) buffer = Some r"
              using left Inr elem room d True r
              by (subst bencode_read_list_loop.simps) (simp add: BEncodeReadArray_sink_def)
            have "length array' = length array \<and> idx \<le> idx' \<and> calls' = calls @ [idx..<idx'] \<and>
                  (idx \<le> length array \<longrightarrow> idx' \<le> length array)"
              if "r = Inr (ok', (array', idx', calls'), buffer'')" for ok' array' idx' calls' buffer''
            proof -
              from post that have p: "length array' = length array" "idx + 1 \<le> idx'"
                "calls' = (calls @ [idx]) @ [idx + 1..<idx']" "idx' \<le> length array"
                using room by auto
              from p(2) have "[idx..<idx'] = idx # [idx + 1..<idx']"
                by (simp add: upt_conv_Cons)
              with p show ?thesis by simp
            qed
            with step show ?thesis by blast
          qed
        qed
      qed
    qed
  qed
qed

lemma BEncodeReadArray_result:
  "\<exists>r. BEncodeReadArray BDecode array buf = Some r \<and>
       (\<forall>ok array' idx' calls' buf'. r = Inr (ok, (array', idx', calls'), buf') \<longrightarrow>
          length array' = length array \<and> idx' \<le> length array \<and> calls' = [0..<idx'])"
proof -
  from array_loop_result [of BDecode array 0 "[]" "buf\<lparr>cur := cur buf + 1\<rparr>"]
  obtain r where r: "bencode_read_list_loop (BEncodeReadArray_sink BDecode) (array, 0, []) (buf\<lparr>cur := cur buf + 1\<rparr>) = Some r"
    and post: "\<And>ok array' idx' calls' buffer'. r = Inr (ok, (array', idx', calls'), buffer') \<Longrightarrow>
          length array' = length array \<and> calls' = [0..<idx'] \<and> idx' \<le> length array"
    by auto
  show ?thesis
  proof (cases r)
    case (Inl e)
    with r show ?thesis
      by (auto simp: BEncodeReadArray_def bencode_read_list_def split: sum.splits)
  next
    case (Inr t)
    obtain ok array' idx' calls' buffer' where t: "t = (ok, (array', idx', calls'), buffer')"
      by (cases t) auto
    from post [of ok array' idx' calls' buffer'] Inr t
    have p: "length array' = length array" "calls' = [0..<idx']" "idx' \<le> length array"
      by auto
    with r Inr t show ?thesis
      by (auto simp: BEncodeReadArray_def bencode_read_list_def BEncodeReadArray_sink_def
          split: sum.splits)
  qed
qed


lemma array_loop_rejects_longer_list:
  assumes indep: "\<forall>a b buffer. fst (BDecode a buffer) = fst (BDecode b buffer) \<and>
                    snd (snd (BDecode a buffer)) = snd (snd (BDecode b buffer))"
    and list: "bencode_read_list_loop (BEncodeReadList_sink BDecode dflt) xs buffer = Some (Inr (okl, xs', b'))"
    and idx: "idx \<le> length array"
  shows "\<exists>ok s b''. bencode_read_list_loop (BEncodeReadArray_sink BDecode) (array, idx, calls) buffer
             = Some (Inr (ok, s, b'')) \<and>
           (ok \<longrightarrow> length xs' + idx \<le> length array + length xs)"
  using list idx
proof (induction "length array - idx" arbitrary: array idx calls buffer xs rule: less_induct)
  case less
  note list = less.prems(1) and idx = less.prems(2)
  show ?case
  proof (cases "size_left buffer = 0")
    case True
    with list have "xs' = xs"
      by (subst (asm) bencode_read_list_loop.simps) simp
    with True idx show ?thesis
      by (subst bencode_read_list_loop.simps) auto
  next
    case left: False
    show ?thesis
    proof (cases "peek buffer")
      case (Inl e)
      with left list show ?thesis
        by (subst (asm) bencode_read_list_loop.simps) simp
    next
      case (Inr c)
      show ?thesis
      proof (cases "c = 101")
        case True
        with left Inr list have "xs' = xs"
          by (subst (asm) bencode_read_list_loop.simps) simp
        with True left Inr idx show ?thesis
          by (subst bencode_read_list_loop.simps) auto
      next
        case elem: False
        show ?thesis
        proof (cases "idx \<ge> length array")
          case True
          with left Inr elem show ?thesis
            by (subst bencode_read_list_loop.simps) (auto simp: BEncodeReadArray_sink_def)
        next
          case room: False
          obtain ok a buffer1 where dl: "BDecode dflt buffer = (ok, a, buffer1)"
            by (cases "BDecode dflt buffer") auto
          obtain ok' a' buffer' where d: "BDecode (array ! idx) buffer = (ok', a', buffer')"
            by (cases "BDecode (array ! idx) buffer") auto
          from indep [rule_format, of "array ! idx" buffer dflt] d dl
          have same: "ok' = ok" "buffer' = buffer1"
            by simp_all
          show ?thesis
          proof (cases ok)
            case False
            with left Inr elem room d same show ?thesis
              by (subst bencode_read_list_loop.simps) (auto simp: BEncodeReadArray_sink_def)
          next
            case True
            with left Inr elem dl list
            have rest: "bencode_read_list_loop (BEncodeReadList_sink BDecode dflt) (xs @ [a]) buffer1
                  = Some (Inr (okl, xs', b'))"
              by (subst (asm) bencode_read_list_loop.simps) (simp add: BEncodeReadList_sink_def)
            have m: "length (array[idx := a']) - (idx + 1) < length array - idx"
              and i: "idx + 1 \<le> length (array[idx := a'])"
              using room by simp_all
            from less.hyps [OF m rest i, of "calls @ [idx]"]
            obtain ok2 s b'' where r: "bencode_read_list_loop (BEncodeReadArray_sink BDecode)
                   (array[idx := a'], idx + 1, calls @ [idx]) buffer1 = Some (Inr (ok2, s, b''))"
              and post: "ok2 \<longrightarrow> length xs' + (idx + 1) \<le> length (array[idx := a']) + length (xs @ [a])"
              by blast
            have "bencode_read_list_loop (BEncodeReadArray_sink BDecode) (array, idx, calls) buffer
                    = Some (Inr (ok2, s, b''))"
              using left Inr elem room d same True r
              by (subst bencode_read_list_loop.simps) (simp add: BEncodeReadArray_sink_def)
            with post show ?thesis by (cases s) auto
          qed
        qed
      qed
    qed
  qed
qed

text \<open>
  C10: for every destination array, input buffer and element decoder,
  \<open>BEncodeReadArray\<close> returns; when it returns without a fault, \<open>BDecode\<close> was called on
  the elements \<open>0, 1, ..., idx - 1\<close> in this order with \<open>idx\<close> at most the size \<open>k\<close> of the
  array, so never on an index \<open>\<ge> k\<close>, and the array keeps its size. When the buffer
  holds a list of more than \<open>k\<close> elements, that is, when \<open>BEncodeReadList\<close> with the same
  decoder reads more than \<open>k\<close> elements from it, whatever it returns in the end (the
  decoder's result and the bytes it consumes do not depend on the element it decodes
  into), \<open>BEncodeReadArray\<close> returns false.
\<close>

theorem BEncodeReadArray_bounded:
  "(\<exists>r. BEncodeReadArray BDecode array buf = Some r) \<and>
   (\<forall>ok array' idx calls buf'.
      BEncodeReadArray BDecode array buf = Some (Inr (ok, (array', idx, calls), buf')) \<longrightarrow>
        calls = [0..<idx] \<and> idx \<le> length array \<and> length array' = length array) \<and>
   ((\<forall>a b buffer. fst (BDecode a buffer) = fst (BDecode b buffer) \<and>
                   snd (snd (BDecode a buffer)) = snd (snd (BDecode b buffer))) \<and>
    BEncodeReadList BDecode dflt [] buf = Some (Inr (okl, xs, bufl)) \<and>
    length array < length xs \<longrightarrow>
      (\<exists>s buf'. BEncodeReadArray BDecode array buf = Some (Inr (False, s, buf'))))"
proof -
  from BEncodeReadArray_result [of BDecode array buf]
  have 1: "\<exists>r. BEncodeReadArray BDecode array buf = Some r"
    and 2: "\<forall>ok array' idx calls buf'.
      BEncodeReadArray BDecode array buf = Some (Inr (ok, (array', idx, calls), buf')) \<longrightarrow>
        calls = [0..<idx] \<and> idx \<le> length array \<and> length array' = length array"
    by auto
  have 3: "\<exists>s buf'. BEncodeReadArray BDecode array buf = Some (Inr (False, s, buf'))"
    if indep: "\<forall>a b buffer. fst (BDecode a buffer) = fst (BDecode b buffer) \<and>
                   snd (snd (BDecode a buffer)) = snd (snd (BDecode b buffer))"
      and list: "BEncodeReadList BDecode dflt [] buf = Some (Inr (okl, xs, bufl))"
      and longer: "length array < length xs"
  proof -
    let ?start = "buf\<lparr>cur := cur buf + 1\<rparr>"
    from list longer have pre: "\<not> size_left buf < 2" "peek buf = Inr 108"
      by (auto simp: BEncodeReadList_def bencode_read_list_def split: if_splits sum.splits)
    with list obtain ok1 b1 where
      loop: "bencode_read_list_loop (BEncodeReadList_sink BDecode dflt) [] ?start = Some (Inr (ok1, xs, b1))"
      by (auto simp: BEncodeReadList_def bencode_read_list_def BEncodeReadList_sink_def
          split: if_splits sum.splits option.splits)
    from array_loop_rejects_longer_list [OF indep loop, of 0 array "[]"]
    obtain ok s b'' where
      r: "bencode_read_list_loop (BEncodeReadArray_sink BDecode) (array, 0, []) ?start = Some (Inr (ok, s, b''))"
      and post: "ok \<longrightarrow> length xs + 0 \<le> length array + length ([] :: 'a list)"
      by auto
    from post longer have "\<not> ok" by auto
    with r pre show ?thesis
      by (cases s) (simp add: BEncodeReadArray_def bencode_read_list_def)
  qed
  from 1 2 3 show ?thesis by blast
qed

theorem BEncodeReadArray_bounded_witness:
  "BEncodeReadList byte_BDecode 0 [] \<lparr>base = [108, 1, 2, 3, 101], cur = 0, sz = 5\<rparr> =
     Some (Inr (True, [1, 2, 3], \<lparr>base = [108, 1, 2, 3, 101], cur = 5, sz = 5\<rparr>)) \<and>
   (\<exists>s buf'. BEncodeReadArray byte_BDecode [0, 0] \<lparr>base = [108, 1, 2, 3, 101], cur = 0, sz = 5\<rparr> =
     Some (Inr (False, s, buf'))) \<and>
   BEncodeReadArray byte_BDecode [0, 0] \<lparr>base = [108, 1, 2, 3, 101], cur = 0, sz = 5\<rparr> =
     Some (Inr (False, ([1, 2], 2, [0, 1]), \<lparr>base = [108, 1, 2, 3, 101], cur = 3, sz = 5\<rparr>)) \<and>
   BEncodeReadArray byte_BDecode [0, 0, 0] \<lparr>base = [108, 1, 2, 3, 101], cur = 0, sz = 5\<rparr> =
     Some (Inr (True, ([1, 2, 3], 3, [0, 1, 2]), \<lparr>base = [108, 1, 2, 3, 101], cur = 5, sz = 5\<rparr>)) \<and>
   BEncodeReadList byte_BDecode 0 [] \<lparr>base = [108, 1, 2, 3, 7], cur = 0, sz = 4\<rparr> =
     Some (Inr (False, [1, 2, 3], \<lparr>base = [108, 1, 2, 3, 7], cur = 4, sz = 4\<rparr>)) \<and>
   (\<exists>s buf'. BEncodeReadArray byte_BDecode [0, 0] \<lparr>base = [108, 1, 2, 3, 7], cur = 0, sz = 4\<rparr> =
     Some (Inr (False, s, buf')))"
proof -
  let ?buf = "\<lparr>base = [108, 1, 2, 3, 101], cur = 0, sz = 5\<rparr>"
  let ?cut = "\<lparr>base = [108, 1, 2, 3, 7], cur = 0, sz = 4\<rparr>"
  have indep: "\<forall>a b buffer. fst (byte_BDecode a buffer) = fst (byte_BDecode b buffer) \<and>
                   snd (snd (byte_BDecode a buffer)) = snd (snd (byte_BDecode b buffer))"
    by (simp add: byte_BDecode_def)
  have list: "BEncodeReadList byte_BDecode 0 [] ?buf =
     Some (Inr (True, [1, 2, 3], \<lparr>base = [108, 1, 2, 3, 101], cur = 5, sz = 5\<rparr>))"
    by (simp add: BEncodeReadList_def bencode_read_list_def bencode_read_list_loop.simps
        BEncodeReadList_sink_def byte_BDecode_def size_left_def peek_def)
  have cut: "BEncodeReadList byte_BDecode 0 [] ?cut =
     Some (Inr (False, [1, 2, 3], \<lparr>base = [108, 1, 2, 3, 7], cur = 4, sz = 4\<rparr>))"
    by (simp add: BEncodeReadList_def bencode_read_list_def bencode_read_list_loop.simps
        BEncodeReadList_sink_def byte_BDecode_def size_left_def peek_def)
  have longer: "length [0, 0 :: byte_t] < length [1, 2, 3 :: byte_t]"
    by simp
  from BEncodeReadArray_bounded [of byte_BDecode "[0, 0]" ?buf 0 True "[1, 2, 3]"
      "\<lparr>base = [108, 1, 2, 3, 101], cur = 5, sz = 5\<rparr>"] indep list longer
  have rejected: "\<exists>s buf'. BEncodeReadArray byte_BDecode [0, 0] ?buf = Some (Inr (False, s, buf'))"
    by blast
  from BEncodeReadArray_bounded [of byte_BDecode "[0, 0]" ?cut 0 False "[1, 2, 3]"
      "\<lparr>base = [108, 1, 2, 3, 7], cur = 4, sz = 4\<rparr>"] indep cut longer
  have rejected_cut: "\<exists>s buf'. BEncodeReadArray byte_BDecode [0, 0] ?cut = Some (Inr (False, s, buf'))"
    by blast
  have two: "BEncodeReadArray byte_BDecode [0, 0] ?buf =
     Some (Inr (False, ([1, 2], 2, [0, 1]), \<lparr>base = [108, 1, 2, 3, 101], cur = 3, sz = 5\<rparr>))"
    by (simp add: BEncodeReadArray_def bencode_read_list_def bencode_read_list_loop.simps
        BEncodeReadArray_sink_def byte_BDecode_def size_left_def peek_def)
  have three: "BEncodeReadArray byte_BDecode [0, 0, 0] ?buf =
     Some (Inr (True, ([1, 2, 3], 3, [0, 1, 2]), \<lparr>base = [108, 1, 2, 3, 101], cur = 5, sz = 5\<rparr>))"
    by (simp add: BEncodeReadArray_def bencode_read_list_def bencode_read_list_loop.simps
        BEncodeReadArray_sink_def byte_BDecode_def size_left_def peek_def)
  from list rejected two three cut rejected_cut show ?thesis
    by blast
qed

end
